theory Spec2Isabelle
  imports Complex_Main "HOL-Library.Sublist" "HOL-Library.AList"
begin

section \<open>JavaScript values\<close>

text \<open>
  The scripts are JavaScript. A string is modelled by the list of its UTF-16 code units,
  for strings whose code units are all below 256 (\<open>string\<close> is \<open>char list\<close>).
  A value read from a JSON file is a \<open>jsval\<close>; \<open>Undefined\<close> is what reading an
  absent property gives. A Number of a JSON text is a double: a finite one, or an infinity
  for a numeral beyond the range of doubles such as \<open>1e400\<close>. An object is the list of
  its properties in their order; should a list name a key twice, the first entry is the
  property.
\<close>

datatype number = Finite real | Infinity | NegativeInfinity

datatype jsval =
    Undefined
  | Null
  | Bool bool
  | Num number
  | Str string
  | Arr "jsval list"
  | Obj "(string \<times> jsval) list"

text \<open>What a \<open>throw\<close> carries, as far as the scripts tell the cases apart.\<close>

datatype error =
    TypeError
  | SyntaxError
  | IOError
  | Error string
  | ExecError string

text \<open>
  Reading \<open>v[key]\<close> and the effect of \<open>v[key] = x\<close> on what \<open>JSON.stringify(v)\<close>
  prints afterwards, for the keys the scripts use (\<open>version\<close>, \<open>dependencies\<close>,
  \<open>devDependencies\<close>, \<open>peerDependencies\<close>), none of which is a property of a string,
  an array or a prototype. On \<open>null\<close> and \<open>undefined\<close> both throw. A primitive has no
  such property and drops the assignment (the scripts are not in strict mode); an array
  keeps the property but \<open>JSON.stringify\<close> prints its elements only.
\<close>

fun get_property :: "jsval \<Rightarrow> string \<Rightarrow> error + jsval" where
  "get_property Undefined key = Inl TypeError"
| "get_property Null key = Inl TypeError"
| "get_property (Obj props) key = Inr (case map_of props key of Some v \<Rightarrow> v | None \<Rightarrow> Undefined)"
| "get_property v key = Inr Undefined"

fun set_property :: "jsval \<Rightarrow> string \<Rightarrow> jsval \<Rightarrow> error + jsval" where
  "set_property Undefined key x = Inl TypeError"
| "set_property Null key x = Inl TypeError"
| "set_property (Obj props) key x = Inr (Obj (AList.update key x props))"
| "set_property v key x = Inr v"

text \<open>The truth value of a value in a condition.\<close>

fun truthy :: "jsval \<Rightarrow> bool" where
  "truthy Undefined = False"
| "truthy Null = False"
| "truthy (Bool b) = b"
| "truthy (Num x) = (x \<noteq> Finite 0)"
| "truthy (Str s) = (s \<noteq> [])"
| "truthy (Arr xs) = True"
| "truthy (Obj props) = True"

text \<open>
  What \<open>JSON.parse\<close> reads from the text that \<open>JSON.stringify(v, null, 2)\<close> prints,
  for a value \<open>v\<close> other than \<open>undefined\<close>. An infinite Number is printed as
  \<open>null\<close>, and so is \<open>undefined\<close> in an array; a property whose value is
  \<open>undefined\<close> is not printed, and every other property is printed once. A finite
  Number is printed with digits that read back as the same Number, and a string with
  escapes that read back as the same string.
\<close>

primrec stringified :: "jsval \<Rightarrow> jsval" where
  "stringified Undefined = Undefined"
| "stringified Null = Null"
| "stringified (Bool b) = Bool b"
| "stringified (Num x) = (case x of Finite r \<Rightarrow> Num x | _ \<Rightarrow> Null)"
| "stringified (Str s) = Str s"
| "stringified (Arr xs) =
     Arr (map (\<lambda>v. if v = Undefined then Null else v) (map stringified xs))"
| "stringified (Obj props) =
     Obj (filter (\<lambda>(key, v). v \<noteq> Undefined)
            (AList.clearjunk (map (map_prod id stringified) props)))"

text \<open>Applying a step that may throw to every element in turn: the first throw ends it.\<close>

fun traverse :: "('a \<Rightarrow> error + 'b) \<Rightarrow> 'a list \<Rightarrow> error + 'b list" where
  "traverse f [] = Inr []"
| "traverse f (x # xs) =
     (case f x of
        Inl e \<Rightarrow> Inl e
      | Inr y \<Rightarrow> (case traverse f xs of Inl e \<Rightarrow> Inl e | Inr ys \<Rightarrow> Inr (y # ys)))"

subsection \<open>Numbers\<close>

text \<open>
  \<open>parseInt\<close> yields a Number: an IEEE double. The values that arise here are
  \<open>NaN\<close>, the infinities and integral doubles; \<open>Fin n\<close> is the double whose value
  is the integer \<open>n\<close> (the two zeros are not told apart: the scripts only add one to a
  Number and print it, and both zeros print as \<open>0\<close>).
\<close>

datatype jsnum = NaN | Fin int | PosInfinity | NegInfinity

function bitlen :: "int \<Rightarrow> nat" where
  "bitlen n = (if n \<le> 0 then 0 else Suc (bitlen (n div 2)))"
  by pat_completeness auto
termination
  by (relation "measure nat") auto

text \<open>
  Rounding a non-negative integer to the nearest double, ties to the even significand
  (53 bits). Integers below \<open>2 ^ 53\<close> are doubles.
\<close>

definition round_double :: "int \<Rightarrow> int" where
  "round_double m =
     (if m < 2 ^ 53 then m
      else let e = bitlen m - 53;
               q = m div 2 ^ e;
               r = m mod 2 ^ e
           in if 2 ^ (e - 1) < r \<or> (r = 2 ^ (e - 1) \<and> odd q)
              then (q + 1) * 2 ^ e else q * 2 ^ e)"

text \<open>The Number for a mathematical integer; beyond the largest double it is an infinity.\<close>

definition to_double :: "int \<Rightarrow> jsnum" where
  "to_double z =
     (let r = round_double \<bar>z\<bar>
      in if 2 ^ 1024 \<le> r then (if z < 0 then NegInfinity else PosInfinity)
         else Fin (if z < 0 then - r else r))"

text \<open>\<open>x + 1\<close> on a Number.\<close>

fun add1 :: "jsnum \<Rightarrow> jsnum" where
  "add1 NaN = NaN"
| "add1 PosInfinity = PosInfinity"
| "add1 NegInfinity = NegInfinity"
| "add1 (Fin n) = to_double (n + 1)"

definition digit_char :: "int \<Rightarrow> char" where
  "digit_char d = ''0123456789'' ! nat d"

text \<open>The decimal numeral of a non-negative integer.\<close>

function dec :: "int \<Rightarrow> string" where
  "dec n = (if n < 10 then [digit_char n] else dec (n div 10) @ [digit_char (n mod 10)])"
  by pat_completeness auto
termination
  by (relation "measure nat") auto

text \<open>
  Number to string (ECMAScript \<open>Number::toString\<close>, radix 10) for an integral double
  \<open>m > 0\<close>: the digits \<open>s\<close>, their count \<open>k\<close> and the exponent \<open>n\<close> with \<open>k\<close> as small as
  possible such that \<open>s * 10 ^ (n - k)\<close> rounds to \<open>m\<close>; among several \<open>s\<close> the one closest
  to \<open>m\<close>, and the even one of two equally close.
\<close>

definition candidates :: "int \<Rightarrow> nat \<Rightarrow> nat \<Rightarrow> (int \<times> nat \<times> nat) list" where
  "candidates m d k =
     filter (\<lambda>(s, k, n). 10 ^ (k - 1) \<le> s \<and> s < 10 ^ k \<and> round_double (s * 10 ^ (n - k)) = m)
       (concat (map (\<lambda>n. [(m div 10 ^ (n - k), k, n), (m div 10 ^ (n - k) + 1, k, n)])
          [d, Suc d]))"

definition closer :: "int \<Rightarrow> int \<times> nat \<times> nat \<Rightarrow> int \<times> nat \<times> nat \<Rightarrow> int \<times> nat \<times> nat" where
  "closer m a b =
     (let da = \<bar>fst a * 10 ^ (snd (snd a) - fst (snd a)) - m\<bar>;
          db = \<bar>fst b * 10 ^ (snd (snd b) - fst (snd b)) - m\<bar>
      in if db < da \<or> (db = da \<and> even (fst b)) then b else a)"

definition shortest_digits :: "int \<Rightarrow> int \<times> nat \<times> nat" where
  "shortest_digits m =
     (let d = length (dec m)
      in case find (\<lambda>cs. cs \<noteq> []) (map (candidates m d) [1..<Suc d]) of
           Some (c # cs) \<Rightarrow> foldl (closer m) c cs
         | _ \<Rightarrow> (m, d, d))"

definition nat_toString :: "int \<Rightarrow> string" where
  "nat_toString m =
     (if m < 2 ^ 53 then dec m
      else case shortest_digits m of (s, k, n) \<Rightarrow>
        if n \<le> 21 then dec s @ replicate (n - k) (CHR ''0'')
        else (if k = 1 then dec s else take 1 (dec s) @ ''.'' @ drop 1 (dec s))
             @ ''e+'' @ dec (int n - 1))"

fun Number_toString :: "jsnum \<Rightarrow> string" where
  "Number_toString NaN = ''NaN''"
| "Number_toString PosInfinity = ''Infinity''"
| "Number_toString NegInfinity = ''-Infinity''"
| "Number_toString (Fin n) = (if n < 0 then ''-'' @ nat_toString (- n) else nat_toString n)"

text \<open>The Numbers that are neither negative nor \<open>-Infinity\<close>.\<close>

definition nonneg_num :: "jsnum \<Rightarrow> bool" where
  "nonneg_num x = (case x of Fin n \<Rightarrow> 0 \<le> n | NegInfinity \<Rightarrow> False | _ \<Rightarrow> True)"

subsection \<open>parseInt\<close>

text \<open>
  \<open>parseInt(string)\<close> with no radix: leading white space is skipped, a sign is read, a
  prefix \<open>0x\<close> or \<open>0X\<close> selects radix 16, and the longest run of digits of the radix is
  the value; no digit at all gives \<open>NaN\<close>.
\<close>

definition is_white_space :: "char \<Rightarrow> bool" where
  "is_white_space c \<longleftrightarrow> c \<in> set [CHR 0x09, CHR 0x0A, CHR 0x0B, CHR 0x0C, CHR 0x0D, CHR 0x20, CHR 0xA0]"

definition digit_table :: "(char \<times> int) list" where
  "digit_table =
     zip ''0123456789abcdefABCDEF''
       [0, 1, 2, 3, 4, 5, 6, 7, 8, 9, 10, 11, 12, 13, 14, 15, 10, 11, 12, 13, 14, 15]"

definition digit_of :: "char \<Rightarrow> int option" where
  "digit_of c = map_of digit_table c"

definition is_radix_digit :: "int \<Rightarrow> char \<Rightarrow> bool" where
  "is_radix_digit radix c = (case digit_of c of Some v \<Rightarrow> v < radix | None \<Rightarrow> False)"

definition digits_value :: "int \<Rightarrow> string \<Rightarrow> int" where
  "digits_value radix ds = foldl (\<lambda>a c. a * radix + the (digit_of c)) 0 ds"

definition parseInt :: "string \<Rightarrow> jsnum" where
  "parseInt input =
     (let s = dropWhile is_white_space input;
          neg = (take 1 s = ''-'');
          s1 = (if take 1 s = ''-'' \<or> take 1 s = ''+'' then drop 1 s else s);
          hex = (take 2 s1 = ''0x'' \<or> take 2 s1 = ''0X'');
          radix = (if hex then 16 else 10);
          s2 = (if hex then drop 2 s1 else s1);
          ds = takeWhile (is_radix_digit radix) s2
      in if ds = [] then NaN
         else to_double ((if neg then - 1 else 1) * digits_value radix ds))"

subsection \<open>Strings\<close>

text \<open>\<open>str.split(sep)\<close> for a separator of one character.\<close>

fun split_on :: "char \<Rightarrow> string \<Rightarrow> string list" where
  "split_on c [] = [[]]"
| "split_on c (x # xs) =
     (if x = c then [] # split_on c xs
      else case split_on c xs of p # ps \<Rightarrow> (x # p) # ps | [] \<Rightarrow> [[x]])"

text \<open>
  \<open>parts[i]\<close> as the argument of \<open>parseInt\<close>: an index past the end reads
  \<open>undefined\<close>, which \<open>parseInt\<close> converts to the string \<open>undefined\<close>.
\<close>

definition part :: "string list \<Rightarrow> nat \<Rightarrow> string" where
  "part parts i = (if i < length parts then parts ! i else ''undefined'')"

definition is_digit :: "char \<Rightarrow> bool" where
  "is_digit c \<longleftrightarrow> c \<in> set ''0123456789''"

definition is_line_terminator :: "char \<Rightarrow> bool" where
  "is_line_terminator c \<longleftrightarrow> c = CHR 0x0A \<or> c = CHR 0x0D"

text \<open>
  \<open>version.match(/^(.*)-TAG\.(\d+)$/)\<close> for \<open>TAG\<close> one of \<open>beta\<close>, \<open>alpha\<close>: the
  second group is the run of digits that ends the string, which \<open>-TAG.\<close> must precede,
  and the first group is all before it, which \<open>.\<close> lets hold no line terminator. The
  result is the pair of the groups.
\<close>

definition match_prerelease :: "string \<Rightarrow> string \<Rightarrow> (string \<times> string) option" where
  "match_prerelease tag version =
     (let ds = rev (takeWhile is_digit (rev version));
          front = take (length version - length ds) version;
          sep = ''-'' @ tag @ ''.'';
          base = take (length front - length sep) front
      in if ds \<noteq> [] \<and> suffix sep front \<and> \<not> list_ex is_line_terminator base
         then Some (base, ds) else None)"
section \<open>The publish script: \<open>scripts/publish-packages.js\<close>\<close>

subsection \<open>\<open>incrementVersion\<close>\<close>

text \<open>
  \<open>version\<close> is whatever the manifest holds; \<open>version.split\<close> throws a
  \<open>TypeError\<close> unless it is a string.
\<close>

definition incrementVersion :: "jsval \<Rightarrow> string \<Rightarrow> error + string" where
  "incrementVersion v vtype =
     (case v of
        Str version \<Rightarrow>
          (let parts = split_on (CHR ''.'') (hd (split_on (CHR ''-'') version));
               major = parseInt (part parts 0);
               minor = parseInt (part parts 1);
               patch = parseInt (part parts 2)
           in if vtype = ''major'' then Inr (Number_toString (add1 major) @ ''.0.0'')
              else if vtype = ''minor'' then
                Inr (Number_toString major @ ''.'' @ Number_toString (add1 minor) @ ''.0'')
              else if vtype = ''patch'' then
                Inr (Number_toString major @ ''.'' @ Number_toString minor @ ''.''
                     @ Number_toString (add1 patch))
              else if vtype = ''beta'' then
                (case match_prerelease ''beta'' version of
                   Some (baseVersion, betaNumber) \<Rightarrow>
                     Inr (baseVersion @ ''-beta.'' @ Number_toString (add1 (parseInt betaNumber)))
                 | None \<Rightarrow> Inr (version @ ''-beta.1''))
              else if vtype = ''alpha'' then
                (case match_prerelease ''alpha'' version of
                   Some (baseVersion, alphaNumber) \<Rightarrow>
                     Inr (baseVersion @ ''-alpha.'' @ Number_toString (add1 (parseInt alphaNumber)))
                 | None \<Rightarrow> Inr (version @ ''-alpha.1''))
              else Inr version)
      | _ \<Rightarrow> Inl TypeError)"

subsection \<open>The world of a run\<close>

text \<open>
  The three packages of the repository, in build order.
\<close>

record package =
  name :: string
  path :: string
  description :: string

definition packages :: "package list" where
  "packages =
     [\<lparr>name = ''@fecommunity/reactpress-config'', path = ''config'',
        description = ''Configuration management package''\<rparr>,
      \<lparr>name = ''@fecommunity/reactpress-server'', path = ''server'',
        description = ''Backend API server package''\<rparr>,
      \<lparr>name = ''@fecommunity/reactpress-client'', path = ''client'',
        description = ''Frontend application package''\<rparr>]"

text \<open>\<open>packages.find(p => p.name === depName)\<close>.\<close>

definition find_package :: "string \<Rightarrow> package option" where
  "find_package depName = find (\<lambda>p. name p = depName) packages"

text \<open>
  The file \<open>package.json\<close> of a package directory, as \<open>JSON.parse(fs.readFileSync(...))\<close>
  sees it: the read throws (\<open>Missing\<close>), the parse throws (\<open>Unparseable\<close>), or the
  parse yields a value. A file is kept as the value it parses to.
\<close>

datatype manifest_file = Missing | Unparseable | Json jsval

text \<open>
  The calls of a run in their order, each recorded when it is entered:
  the functions of the script that read or write a manifest or start a command, and each
  \<open>npm view\<close> of the registry.
\<close>

datatype step =
    GetCurrentVersion string
  | GetNextAvailableVersion string
  | NpmView string string
  | FixWorkspaceDependencies string
  | UpdateVersion string
  | BuildPackage string
  | PublishPackage string string
  | RestoreWorkspaceDependencies string
  | CreateGitHubRelease string

text \<open>
  The warnings and errors the script prints (its yellow and red lines and what
  \<open>console.error\<close> prints); the lines that report progress are left out.
\<close>

datatype message =
    CouldNotCheckRegistry string
  | FailedToBuild string
  | FailedToPublish string
  | FailedToCreateRelease
  | PnpmNotInstalled
  | NotLoggedIn
  | DirectoryNotFound string
  | OperationCancelled
  | UnableToDetermineBranch
  | PublishingFailed error

record world =
  files :: "string \<Rightarrow> manifest_file"
  messages :: "message list"
  steps :: "step list"

text \<open>
  What the commands the script starts do, which the script does not decide: whether
  \<open>npm view NAME@VERSION version\<close> succeeds, whether the build and the publish of a
  package directory succeed, whether a package directory exists, the checks of the
  environment, the current git branch (\<open>None\<close> when git fails) and whether
  \<open>gh release create\<close> succeeds. Builds and publishes are taken to leave the manifests
  as they are.
\<close>

record env =
  npm_view :: "string \<Rightarrow> string \<Rightarrow> bool"
  build_succeeds :: "string \<Rightarrow> bool"
  publish_succeeds :: "string \<Rightarrow> string \<Rightarrow> bool"
  dir_exists :: "string \<Rightarrow> bool"
  pnpm_installed :: bool
  logged_in :: bool
  git_branch :: "string option"
  gh_release_succeeds :: bool

definition record_step :: "step \<Rightarrow> world \<Rightarrow> world" where
  "record_step s w = w\<lparr>steps := steps w @ [s]\<rparr>"

definition record_message :: "message \<Rightarrow> world \<Rightarrow> world" where
  "record_message m w = w\<lparr>messages := messages w @ [m]\<rparr>"

definition read_manifest :: "world \<Rightarrow> string \<Rightarrow> error + jsval" where
  "read_manifest w packagePath =
     (case files w packagePath of
        Missing \<Rightarrow> Inl IOError
      | Unparseable \<Rightarrow> Inl SyntaxError
      | Json pkg \<Rightarrow> Inr pkg)"

text \<open>
  \<open>fs.writeFileSync(pkgPath, JSON.stringify(pkg, null, 2) + ...)\<close>: the file then parses
  to what \<open>JSON.stringify\<close> printed of \<open>pkg\<close>. For \<open>undefined\<close> nothing is printed
  but the word \<open>undefined\<close>, which does not parse.
\<close>

definition written :: "jsval \<Rightarrow> manifest_file" where
  "written pkg = (case pkg of Undefined \<Rightarrow> Unparseable | _ \<Rightarrow> Json (stringified pkg))"

definition write_manifest :: "string \<Rightarrow> jsval \<Rightarrow> world \<Rightarrow> world" where
  "write_manifest packagePath pkg w = w\<lparr>files := (files w)(packagePath := written pkg)\<rparr>"

subsection \<open>\<open>getCurrentVersion\<close>\<close>

definition getCurrentVersion :: "string \<Rightarrow> world \<Rightarrow> jsval \<times> world" where
  "getCurrentVersion packagePath w =
     (let w1 = record_step (GetCurrentVersion packagePath) w
      in case read_manifest w1 packagePath of
           Inl e \<Rightarrow> (Str ''unknown'', w1)
         | Inr pkg \<Rightarrow>
             (case get_property pkg ''version'' of
                Inl e \<Rightarrow> (Str ''unknown'', w1)
              | Inr v \<Rightarrow> (v, w1)))"

subsection \<open>\<open>getNextAvailableVersion\<close>\<close>

text \<open>
  The loop \<open>while (versionExists && attempts < maxAttempts)\<close> with \<open>maxAttempts = 100\<close>.
  Its body probes the registry and, when the probe succeeds, increments the candidate and
  the counter; a throw in the body (the failed probe) clears \<open>versionExists\<close>.
\<close>

function probe_loop ::
  "env \<Rightarrow> string \<Rightarrow> string \<Rightarrow> string \<Rightarrow> bool \<Rightarrow> nat \<Rightarrow> world \<Rightarrow> (string \<times> nat) \<times> world" where
  "probe_loop ev packageName versionType nextVersion versionExists attempts w =
     (if versionExists \<and> attempts < 100 then
        (let w1 = record_step (NpmView packageName nextVersion) w
         in case (if npm_view ev packageName nextVersion
                  then incrementVersion (Str nextVersion) versionType
                  else Inl (ExecError ''npm view''))
            of Inr v \<Rightarrow> probe_loop ev packageName versionType v versionExists (attempts + 1) w1
             | Inl e \<Rightarrow> probe_loop ev packageName versionType nextVersion False attempts w1)
      else ((nextVersion, attempts), w))"
  by pat_completeness auto
termination
  by (relation "measure (\<lambda>(ev, packageName, versionType, nextVersion, versionExists, attempts, w).
        2 * (100 - attempts) + (if versionExists then 1 else 0))") auto

definition getNextAvailableVersion ::
  "env \<Rightarrow> string \<Rightarrow> jsval \<Rightarrow> string \<Rightarrow> world \<Rightarrow> (error + string) \<times> world" where
  "getNextAvailableVersion ev packageName currentVersion versionType w =
     (let w0 = record_step (GetNextAvailableVersion packageName) w;
          tried =
            (case incrementVersion currentVersion versionType of
               Inl e \<Rightarrow> (Inl e, w0)
             | Inr v \<Rightarrow>
                 (case probe_loop ev packageName versionType v True 0 w0 of
                    ((nextVersion, attempts), w1) \<Rightarrow>
                      if attempts \<ge> 100
                      then (Inl (Error ''Too many attempts to find available version''), w1)
                      else (Inr nextVersion, w1)))
      in case tried of
           (Inr nextVersion, w1) \<Rightarrow> (Inr nextVersion, w1)
         | (Inl e, w1) \<Rightarrow>
             (incrementVersion currentVersion versionType,
              record_message (CouldNotCheckRegistry packageName) w1))"

subsection \<open>\<open>updateVersion\<close>\<close>

definition updateVersion :: "string \<Rightarrow> string \<Rightarrow> world \<Rightarrow> (error + unit) \<times> world" where
  "updateVersion packagePath newVersion w =
     (let w1 = record_step (UpdateVersion packagePath) w
      in case read_manifest w1 packagePath of
           Inl e \<Rightarrow> (Inl e, w1)
         | Inr pkg \<Rightarrow>
             (case set_property pkg ''version'' (Str newVersion) of
                Inl e \<Rightarrow> (Inl e, w1)
              | Inr pkg' \<Rightarrow> (Inr (), write_manifest packagePath pkg' w1)))"

subsection \<open>\<open>fixWorkspaceDependencies\<close> and \<open>restoreWorkspaceDependencies\<close>\<close>

definition depTypes :: "string list" where
  "depTypes = [''dependencies'', ''devDependencies'', ''peerDependencies'']"

text \<open>
  \<open>value === 'workspace:*' || value.startsWith('workspace:')\<close> for a string.
\<close>

definition is_workspace_range :: "string \<Rightarrow> bool" where
  "is_workspace_range v \<longleftrightarrow> v = ''workspace:*'' \<or> prefix ''workspace:'' v"

text \<open>\<open>packageVersions[depName]\<close>: the object is built by \<open>main\<close> from the package names.\<close>

definition version_of :: "(string \<times> jsval) list \<Rightarrow> string \<Rightarrow> jsval" where
  "version_of packageVersions depName =
     (case map_of packageVersions depName of Some v \<Rightarrow> v | None \<Rightarrow> Undefined)"

text \<open>
  The body of the inner \<open>forEach\<close> for one entry of a dependency object. On a value that
  is no string the comparison is false and \<open>.startsWith\<close> throws a \<open>TypeError\<close>.
\<close>

definition fix_entry :: "(string \<times> jsval) list \<Rightarrow> string \<times> jsval \<Rightarrow> error + string \<times> jsval" where
  "fix_entry packageVersions entry =
     (case entry of (depName, Str v) \<Rightarrow>
        if is_workspace_range v then
          (case find_package depName of
             Some depPackage \<Rightarrow>
               if truthy (version_of packageVersions depName)
               then Inr (depName, version_of packageVersions depName)
               else Inr (depName, Str v)
           | None \<Rightarrow> Inr (depName, Str v))
        else Inr (depName, Str v)
      | (depName, other) \<Rightarrow> Inl TypeError)"

text \<open>
  \<open>if (pkg[depType]) Object.keys(pkg[depType]).forEach(...)\<close> for the value \<open>section\<close> of
  \<open>pkg[depType]\<close>. The keys of an array are its indices, which name no package, so an
  array changes nothing unless an element is no string; the keys of a string are its
  indices and its values single characters, never a workspace range; a number or
  boolean has no keys.
\<close>

definition is_Str :: "jsval \<Rightarrow> bool" where
  "is_Str v = (case v of Str s \<Rightarrow> True | _ \<Rightarrow> False)"

definition fix_section :: "(string \<times> jsval) list \<Rightarrow> jsval \<Rightarrow> error + jsval" where
  "fix_section packageVersions section =
     (if \<not> truthy section then Inr section
      else case section of
             Obj deps \<Rightarrow>
               (case traverse (fix_entry packageVersions) deps of
                  Inl e \<Rightarrow> Inl e
                | Inr deps' \<Rightarrow> Inr (Obj deps'))
           | Arr xs \<Rightarrow> if list_all is_Str xs then Inr section else Inl TypeError
           | _ \<Rightarrow> Inr section)"

text \<open>
  The outer \<open>depTypes.forEach\<close> on the parsed manifest. The entries are changed inside the
  object \<open>pkg[depType]\<close>, which \<open>pkg\<close> still holds.
\<close>

fun fix_depTypes :: "(string \<times> jsval) list \<Rightarrow> string list \<Rightarrow> jsval \<Rightarrow> error + jsval" where
  "fix_depTypes packageVersions [] pkg = Inr pkg"
| "fix_depTypes packageVersions (depType # rest) pkg =
     (case get_property pkg depType of
        Inl e \<Rightarrow> Inl e
      | Inr section \<Rightarrow>
          (case fix_section packageVersions section of
             Inl e \<Rightarrow> Inl e
           | Inr section' \<Rightarrow>
               (case (if truthy section then set_property pkg depType section' else Inr pkg) of
                  Inl e \<Rightarrow> Inl e
                | Inr pkg' \<Rightarrow> fix_depTypes packageVersions rest pkg')))"

definition fixWorkspaceDependencies ::
  "string \<Rightarrow> (string \<times> jsval) list \<Rightarrow> world \<Rightarrow> (error + unit) \<times> world" where
  "fixWorkspaceDependencies packagePath packageVersions w =
     (let w1 = record_step (FixWorkspaceDependencies packagePath) w
      in case read_manifest w1 packagePath of
           Inl e \<Rightarrow> (Inl e, w1)
         | Inr pkg \<Rightarrow>
             (case fix_depTypes packageVersions depTypes pkg of
                Inl e \<Rightarrow> (Inl e, w1)
              | Inr pkg' \<Rightarrow> (Inr (), write_manifest packagePath pkg' w1)))"

definition restore_entry :: "string \<times> jsval \<Rightarrow> string \<times> jsval" where
  "restore_entry entry =
     (case entry of (depName, v) \<Rightarrow>
        (case find_package depName of
           Some depPackage \<Rightarrow> (depName, Str ''workspace:*'')
         | None \<Rightarrow> (depName, v)))"

definition restore_section :: "jsval \<Rightarrow> jsval" where
  "restore_section section =
     (if \<not> truthy section then section
      else case section of Obj deps \<Rightarrow> Obj (map restore_entry deps) | _ \<Rightarrow> section)"

fun restore_depTypes :: "string list \<Rightarrow> jsval \<Rightarrow> error + jsval" where
  "restore_depTypes [] pkg = Inr pkg"
| "restore_depTypes (depType # rest) pkg =
     (case get_property pkg depType of
        Inl e \<Rightarrow> Inl e
      | Inr section \<Rightarrow>
          (case (if truthy section then set_property pkg depType (restore_section section)
                 else Inr pkg) of
             Inl e \<Rightarrow> Inl e
           | Inr pkg' \<Rightarrow> restore_depTypes rest pkg'))"

definition restoreWorkspaceDependencies :: "string \<Rightarrow> world \<Rightarrow> (error + unit) \<times> world" where
  "restoreWorkspaceDependencies packagePath w =
     (let w1 = record_step (RestoreWorkspaceDependencies packagePath) w
      in case read_manifest w1 packagePath of
           Inl e \<Rightarrow> (Inl e, w1)
         | Inr pkg \<Rightarrow>
             (case restore_depTypes depTypes pkg of
                Inl e \<Rightarrow> (Inl e, w1)
              | Inr pkg' \<Rightarrow> (Inr (), write_manifest packagePath pkg' w1)))"

subsection \<open>\<open>buildPackage\<close>, \<open>publishPackage\<close>, \<open>createGitHubRelease\<close>, \<open>checkEnvironment\<close>\<close>

definition build_command :: "string \<Rightarrow> string option" where
  "build_command packagePath =
     (if packagePath = ''config'' then Some ''pnpm run build''
      else if packagePath = ''server'' then Some ''pnpm run prebuild && pnpm run build''
      else if packagePath = ''client'' then Some ''pnpm run prebuild && pnpm run build''
      else None)"

definition buildPackage :: "env \<Rightarrow> string \<Rightarrow> string \<Rightarrow> world \<Rightarrow> (error + unit) \<times> world" where
  "buildPackage ev packagePath packageName w =
     (let w1 = record_step (BuildPackage packagePath) w
      in case build_command packagePath of
           Some command \<Rightarrow>
             if build_succeeds ev packagePath then (Inr (), w1)
             else (Inl (ExecError command), record_message (FailedToBuild packageName) w1)
         | None \<Rightarrow> (Inr (), w1))"

definition publishPackage ::
  "env \<Rightarrow> string \<Rightarrow> string \<Rightarrow> string \<Rightarrow> world \<Rightarrow> (error + unit) \<times> world" where
  "publishPackage ev packagePath packageName tag w =
     (let w1 = record_step (PublishPackage packagePath tag) w;
          command = ''pnpm publish --access public --tag '' @ tag
                    @ '' --registry https://registry.npmjs.org --no-git-checks''
      in if publish_succeeds ev packagePath tag then (Inr (), w1)
         else (Inl (ExecError command), record_message (FailedToPublish packageName) w1))"

text \<open>The failure of \<open>gh release create\<close> is caught and reported; nothing is thrown.\<close>

definition createGitHubRelease :: "env \<Rightarrow> string \<Rightarrow> world \<Rightarrow> world" where
  "createGitHubRelease ev tagName w =
     (let w1 = record_step (CreateGitHubRelease tagName) w
      in if gh_release_succeeds ev then w1 else record_message FailedToCreateRelease w1)"

definition checkEnvironment :: "env \<Rightarrow> world \<Rightarrow> bool \<times> world" where
  "checkEnvironment ev w =
     (if \<not> pnpm_installed ev then (False, record_message PnpmNotInstalled w)
      else if \<not> logged_in ev then (False, record_message NotLoggedIn w)
      else (True, w))"

subsection \<open>\<open>main\<close>\<close>

text \<open>
  What the user answers to the prompts of \<open>main\<close>; \<open>customVersionFor\<close> is the version
  entered for a package in the prerelease branch, which asks once per package.
\<close>

record answers =
  action :: string
  selectedPackage :: package
  versionType :: string
  customVersion :: string
  customVersionFor :: "string \<Rightarrow> string"
  tag :: string
  confirm :: bool

text \<open>
  The block that each publishing branch of \<open>main\<close> runs for a package:
  \<open>fixWorkspaceDependencies\<close>, then \<open>try { updateVersion; if (!noBuild) buildPackage;
  publishPackage } finally { restoreWorkspaceDependencies }\<close>. A throw of the
  \<open>finally\<close> part replaces the outcome of the \<open>try\<close> part.
\<close>

definition try_publish ::
  "env \<Rightarrow> bool \<Rightarrow> package \<Rightarrow> string \<Rightarrow> string \<Rightarrow> world \<Rightarrow> (error + unit) \<times> world" where
  "try_publish ev noBuild pkg newVersion publishTag w =
     (case updateVersion (path pkg) newVersion w of
        (Inl e, w1) \<Rightarrow> (Inl e, w1)
      | (Inr u, w1) \<Rightarrow>
          (case (if \<not> noBuild then buildPackage ev (path pkg) (name pkg) w1 else (Inr (), w1)) of
             (Inl e, w2) \<Rightarrow> (Inl e, w2)
           | (Inr u, w2) \<Rightarrow> publishPackage ev (path pkg) (name pkg) publishTag w2))"

definition publish_with_restore ::
  "env \<Rightarrow> bool \<Rightarrow> package \<Rightarrow> string \<Rightarrow> string \<Rightarrow> (string \<times> jsval) list \<Rightarrow> world
     \<Rightarrow> (error + unit) \<times> world" where
  "publish_with_restore ev noBuild pkg newVersion publishTag packageVersions w =
     (case fixWorkspaceDependencies (path pkg) packageVersions w of
        (Inl e, w1) \<Rightarrow> (Inl e, w1)
      | (Inr u, w1) \<Rightarrow>
          (case try_publish ev noBuild pkg newVersion publishTag w1 of
             (tried, w2) \<Rightarrow>
               (case restoreWorkspaceDependencies (path pkg) w2 of
                  (Inl e, w3) \<Rightarrow> (Inl e, w3)
                | (Inr u, w3) \<Rightarrow> (tried, w3))))"

text \<open>
  \<open>packages.forEach(pkg => { packageVersions[pkg.name] = getCurrentVersion(pkg.path) })\<close>.
\<close>

fun read_versions ::
  "package list \<Rightarrow> (string \<times> jsval) list \<Rightarrow> world \<Rightarrow> (string \<times> jsval) list \<times> world" where
  "read_versions [] packageVersions w = (packageVersions, w)"
| "read_versions (pkg # rest) packageVersions w =
     (case getCurrentVersion (path pkg) w of
        (v, w1) \<Rightarrow> read_versions rest (AList.update (name pkg) v packageVersions) w1)"

text \<open>The new version: the one the user entered, or the next one the registry lacks.\<close>

definition choose_version ::
  "env \<Rightarrow> string \<Rightarrow> string \<Rightarrow> string \<Rightarrow> jsval \<Rightarrow> world \<Rightarrow> (error + string) \<times> world" where
  "choose_version ev vtype custom packageName currentVersion w =
     (if vtype = ''custom'' then (Inr custom, w)
      else getNextAvailableVersion ev packageName currentVersion vtype w)"

fun build_all :: "env \<Rightarrow> package list \<Rightarrow> world \<Rightarrow> (error + unit) \<times> world" where
  "build_all ev [] w = (Inr (), w)"
| "build_all ev (pkg # rest) w =
     (if dir_exists ev (path pkg) then
        (case buildPackage ev (path pkg) (name pkg) w of
           (Inl e, w1) \<Rightarrow> (Inl e, w1)
         | (Inr u, w1) \<Rightarrow> build_all ev rest w1)
      else build_all ev rest (record_message (DirectoryNotFound (name pkg)) w))"

definition publish_one :: "env \<Rightarrow> bool \<Rightarrow> answers \<Rightarrow> world \<Rightarrow> (error + unit) \<times> world" where
  "publish_one ev noBuild an w =
     (case getCurrentVersion (path (selectedPackage an)) w of
        (currentVersion, w1) \<Rightarrow>
          (case choose_version ev (versionType an) (customVersion an)
                  (name (selectedPackage an)) currentVersion w1 of
             (Inl e, w2) \<Rightarrow> (Inl e, w2)
           | (Inr newVersion, w2) \<Rightarrow>
               (case read_versions packages [] w2 of
                  (packageVersions, w3) \<Rightarrow>
                    publish_with_restore ev noBuild (selectedPackage an) newVersion
                      (if versionType an = ''beta'' then ''beta'' else ''latest'')
                      (AList.update (name (selectedPackage an)) (Str newVersion) packageVersions)
                      w3)))"

fun publish_prerelease ::
  "env \<Rightarrow> bool \<Rightarrow> answers \<Rightarrow> package list \<Rightarrow> (string \<times> jsval) list \<Rightarrow> world
     \<Rightarrow> (error + unit) \<times> world" where
  "publish_prerelease ev noBuild an [] packageVersions w = (Inr (), w)"
| "publish_prerelease ev noBuild an (pkg # rest) packageVersions w =
     (if \<not> dir_exists ev (path pkg)
      then publish_prerelease ev noBuild an rest packageVersions
             (record_message (DirectoryNotFound (name pkg)) w)
      else case getCurrentVersion (path pkg) w of
        (currentVersion, w1) \<Rightarrow>
          (case choose_version ev (versionType an) (customVersionFor an (name pkg))
                  (name pkg) currentVersion w1 of
             (Inl e, w2) \<Rightarrow> (Inl e, w2)
           | (Inr newVersion, w2) \<Rightarrow>
               (case publish_with_restore ev noBuild pkg newVersion (tag an)
                       (AList.update (name pkg) (Str newVersion) packageVersions) w2 of
                  (Inl e, w3) \<Rightarrow> (Inl e, w3)
                | (Inr u, w3) \<Rightarrow>
                    publish_prerelease ev noBuild an rest
                      (AList.update (name pkg) (Str newVersion) packageVersions) w3)))"

fun publish_all_loop ::
  "env \<Rightarrow> bool \<Rightarrow> string \<Rightarrow> string \<Rightarrow> package list \<Rightarrow> (string \<times> jsval) list \<Rightarrow> world
     \<Rightarrow> (error + unit) \<times> world" where
  "publish_all_loop ev noBuild baseVersion publishTag [] packageVersions w = (Inr (), w)"
| "publish_all_loop ev noBuild baseVersion publishTag (pkg # rest) packageVersions w =
     (if \<not> dir_exists ev (path pkg)
      then publish_all_loop ev noBuild baseVersion publishTag rest packageVersions
             (record_message (DirectoryNotFound (name pkg)) w)
      else case publish_with_restore ev noBuild pkg baseVersion publishTag
                  (AList.update (name pkg) (Str baseVersion) packageVersions) w of
             (Inl e, w1) \<Rightarrow> (Inl e, w1)
           | (Inr u, w1) \<Rightarrow>
               publish_all_loop ev noBuild baseVersion publishTag rest
                 (AList.update (name pkg) (Str baseVersion) packageVersions) w1)"

definition publish_all :: "env \<Rightarrow> bool \<Rightarrow> answers \<Rightarrow> world \<Rightarrow> (error + unit) \<times> world" where
  "publish_all ev noBuild an w =
     (let (isMasterBranch, w1) =
            (case git_branch ev of
               Some branch \<Rightarrow> (branch = ''master'' \<or> branch = ''main'', w)
             | None \<Rightarrow> (False, record_message UnableToDetermineBranch w))
      in case read_versions packages [] w1 of
           (packageVersions, w2) \<Rightarrow>
             (case choose_version ev (versionType an) (customVersion an) (name (hd packages))
                     (version_of packageVersions (name (hd packages))) w2 of
                (Inl e, w3) \<Rightarrow> (Inl e, w3)
              | (Inr baseVersion, w3) \<Rightarrow>
                  if \<not> confirm an then (Inr (), record_message OperationCancelled w3)
                  else
                    (case publish_all_loop ev noBuild baseVersion
                            (if versionType an = ''beta'' \<and> \<not> isMasterBranch
                             then ''beta'' else ''latest'')
                            packages packageVersions w3 of
                       (Inl e, w4) \<Rightarrow> (Inl e, w4)
                     | (Inr u, w4) \<Rightarrow>
                         (Inr (),
                          if isMasterBranch then createGitHubRelease ev (''v'' @ baseVersion) w4
                          else w4))))"

text \<open>How \<open>main\<close> ends when it does not throw: it returns, or it calls \<open>process.exit\<close>.\<close>

datatype completion = Returned | Exited nat

definition main :: "env \<Rightarrow> bool \<Rightarrow> answers \<Rightarrow> world \<Rightarrow> (error + completion) \<times> world" where
  "main ev noBuild an w =
     (case checkEnvironment ev w of
        (False, w1) \<Rightarrow> (Inr (Exited 1), w1)
      | (True, w1) \<Rightarrow>
          (case read_versions packages [] w1 of
             (shown, w2) \<Rightarrow>
               (case (if action an = ''cancel'' then (Inr (), record_message OperationCancelled w2)
                      else if action an = ''build-all'' then build_all ev packages w2
                      else if action an = ''publish-one'' then publish_one ev noBuild an w2
                      else if action an = ''publish-prerelease'' then
                        (case read_versions packages [] w2 of
                           (packageVersions, w3) \<Rightarrow>
                             publish_prerelease ev noBuild an packages packageVersions w3)
                      else if action an = ''publish-all'' then publish_all ev noBuild an w2
                      else (Inr (), w2)) of
                  (Inl e, w3) \<Rightarrow> (Inl e, w3)
                | (Inr u, w3) \<Rightarrow> (Inr Returned, w3))))"

text \<open>
  The script: \<open>main().catch(error => { console.error(...); process.exit(1) })\<close>. The
  result is the exit status of the process and the world it leaves.
\<close>

definition publish_script :: "env \<Rightarrow> bool \<Rightarrow> answers \<Rightarrow> world \<Rightarrow> nat \<times> world" where
  "publish_script ev noBuild an w =
     (case main ev noBuild an w of
        (Inl e, w1) \<Rightarrow> (1, record_message (PublishingFailed e) w1)
      | (Inr (Exited status), w1) \<Rightarrow> (status, w1)
      | (Inr Returned, w1) \<Rightarrow> (0, w1))"

subsection \<open>Notions used to state the properties of the publish script\<close>

text \<open>A world in which nothing has been printed or called yet.\<close>

definition initial :: "(string \<Rightarrow> manifest_file) \<Rightarrow> world" where
  "initial fs = \<lparr>files = fs, messages = [], steps = []\<rparr>"

text \<open>
  A dependency entry that the substitution may replace: its value is a workspace range,
  its name is that of one of the three packages, and \<open>packageVersions\<close> holds a version
  for it.
\<close>

definition substitutable :: "(string \<times> jsval) list \<Rightarrow> string \<times> jsval \<Rightarrow> bool" where
  "substitutable packageVersions entry =
     (case entry of
        (depName, Str v) \<Rightarrow>
          is_workspace_range v \<and> depName \<in> set (map name packages)
          \<and> truthy (version_of packageVersions depName)
      | _ \<Rightarrow> False)"

text \<open>
  An entry before and after: the name is kept, and the value is kept or, for a
  substitutable entry, replaced by the version of the package as the file then holds it.
\<close>

definition entry_frame ::
  "(string \<times> jsval) list \<Rightarrow> string \<times> jsval \<Rightarrow> string \<times> jsval \<Rightarrow> bool" where
  "entry_frame packageVersions e e' \<longleftrightarrow>
     fst e' = fst e
     \<and> (snd e' = snd e
        \<or> (substitutable packageVersions e
            \<and> snd e' = stringified (version_of packageVersions (fst e))))"

definition section_frame :: "(string \<times> jsval) list \<Rightarrow> jsval \<Rightarrow> jsval \<Rightarrow> bool" where
  "section_frame packageVersions s s' =
     (case (s, s') of
        (Obj deps, Obj deps') \<Rightarrow> list_all2 (entry_frame packageVersions) deps deps'
      | _ \<Rightarrow> s' = s)"

definition same_keys :: "jsval \<Rightarrow> jsval \<Rightarrow> bool" where
  "same_keys pkg pkg' =
     (case (pkg, pkg') of
        (Obj props, Obj props') \<Rightarrow> map fst props' = map fst props
      | _ \<Rightarrow> pkg' = pkg)"

text \<open>
  An entry of a dependency section before a run and after it: the name is kept; the
  range of a dependency on one of the three packages is \<open>workspace:*\<close>, and any other
  range is the one from before. A section that is an object keeps its entries in their
  order, each restored in this sense; any other value of a section is kept.
\<close>

definition entry_restored :: "string \<times> jsval \<Rightarrow> string \<times> jsval \<Rightarrow> bool" where
  "entry_restored e e' \<longleftrightarrow>
     fst e' = fst e
     \<and> snd e' = (if fst e \<in> set (map name packages) then Str ''workspace:*'' else snd e)"

definition section_restored :: "jsval \<Rightarrow> jsval \<Rightarrow> bool" where
  "section_restored s s' =
     (case s of
        Obj deps \<Rightarrow> (case s' of Obj deps' \<Rightarrow> list_all2 entry_restored deps deps' | _ \<Rightarrow> False)
      | _ \<Rightarrow> s' = s)"

section \<open>The code generator scripts: \<open>toolkit/scripts/generate-api-types.js\<close> and \<open>generate-api.js\<close>\<close>

subsection \<open>\<open>generateApiTypes\<close>\<close>

text \<open>
  Both scripts start \<open>generateApiTypes\<close> in the same way: when the Swagger file is not
  there, the error is printed and the process exits with status 1; otherwise the work
  (creating directories, the generator of \<open>swagger-typescript-api\<close>, the reorganisation of
  its output) runs in a \<open>try\<close> whose \<open>catch\<close> prints the message of what was thrown and
  exits with status 1. The outcome of that work is a parameter: \<open>None\<close> when it completes,
  the message of the error when it throws. The result is what is printed on the error
  stream and the exit status, \<open>None\<close> when the function returns.
\<close>

datatype codegen_message = SwaggerFileMissing | GenerationFailed string

definition generateApiTypes :: "bool \<Rightarrow> string option \<Rightarrow> codegen_message list \<times> nat option" where
  "generateApiTypes input_exists thrown =
     (if \<not> input_exists then ([SwaggerFileMissing], Some 1)
      else case thrown of
             Some message \<Rightarrow> ([GenerationFailed message], Some 1)
           | None \<Rightarrow> ([], None))"

subsection \<open>Replacing all matches of a pattern\<close>

text \<open>
  \<open>content.replace(pattern, replacement)\<close> for a pattern with the flag \<open>g\<close> that matches no
  empty string. The pattern is given by \<open>m\<close>: \<open>m s\<close> is \<open>None\<close> when the pattern does not
  match at the start of \<open>s\<close>, and otherwise the text that replaces the match and the length
  of the match. The search goes from left to right and continues after each match.
\<close>

fun replace_all :: "(string \<Rightarrow> (string \<times> nat) option) \<Rightarrow> string \<Rightarrow> string" where
  "replace_all m [] = []"
| "replace_all m (c # cs) =
     (case m (c # cs) of
        Some (replacement, n) \<Rightarrow> replacement @ replace_all m (drop (n - 1) cs)
      | None \<Rightarrow> c # replace_all m cs)"

text \<open>A pattern that is a fixed text, and the single quote.\<close>

definition match_literal :: "string \<Rightarrow> string \<Rightarrow> string \<Rightarrow> (string \<times> nat) option" where
  "match_literal pattern replacement s =
     (if prefix pattern s then Some (replacement, length pattern) else None)"

abbreviation quote :: char where
  "quote \<equiv> CHR 0x27"

subsection \<open>\<open>fixApiImports\<close> of \<open>generate-api-types.js\<close>\<close>

text \<open>
  The third replacement, \<open>/from '\.\/([^']+)'/g\<close> with its callback: after
  \<open>from './\<close> the group takes all characters up to the next single quote, which must
  exist and must not come at once. A path that includes \<open>contract\<close> or is \<open>types\<close> is
  redirected to the directory \<open>types\<close>; any other match is put back as it is.
\<close>

definition redirect_import :: "string \<Rightarrow> string" where
  "redirect_import importPath =
     (if sublist ''contract'' importPath \<or> importPath = ''types''
      then ''from '' @ [quote] @ ''../types/'' @ importPath @ [quote]
      else ''from '' @ [quote] @ ''./'' @ importPath @ [quote])"

definition match_import :: "string \<Rightarrow> (string \<times> nat) option" where
  "match_import s =
     (if prefix (''from '' @ [quote] @ ''./'') s then
        (let importPath = takeWhile (\<lambda>c. c \<noteq> quote) (drop 8 s);
             after = dropWhile (\<lambda>c. c \<noteq> quote) (drop 8 s)
         in if importPath \<noteq> [] \<and> after \<noteq> []
            then Some (redirect_import importPath, 8 + length importPath + 1)
            else None)
      else None)"

definition fix_imports :: "string \<Rightarrow> string" where
  "fix_imports content =
     replace_all match_import
       (replace_all
          (match_literal (''from '' @ [quote] @ ''./httpClient'' @ [quote])
                         (''from '' @ [quote] @ ''./HttpClient'' @ [quote]))
          (replace_all
             (match_literal (''from '' @ [quote] @ ''./data-contracts'' @ [quote])
                            (''from '' @ [quote] @ ''../types/data-contracts'' @ [quote]))
             content))"

text \<open>
  A directory is the list of its files, each a name and a content. \<open>fixApiImports\<close>
  rewrites the files of the directory \<open>api\<close> whose name ends with \<open>.ts\<close>, but for
  \<open>index.ts\<close>.
\<close>

definition fixApiImports :: "(string \<times> string) list \<Rightarrow> (string \<times> string) list" where
  "fixApiImports apiDir =
     map (\<lambda>(file, content).
            if suffix ''.ts'' file \<and> file \<noteq> ''index.ts'' then (file, fix_imports content)
            else (file, content))
       apiDir"

subsection \<open>The import paths in \<open>organizeGeneratedFiles\<close> of \<open>generate-api.js\<close>\<close>

definition update_imports :: "string \<Rightarrow> string" where
  "update_imports fileContent =
     replace_all
       (match_literal (''from '' @ [quote] @ ''./HttpClient'' @ [quote] @ '';'')
                      (''from '' @ [quote] @ ''./HttpClient'' @ [quote] @ '';''))
       (replace_all
          (match_literal (''from '' @ [quote] @ ''./data-contracts'' @ [quote] @ '';'')
                         (''from '' @ [quote] @ ''../types'' @ [quote] @ '';''))
          fileContent)"

subsection \<open>\<open>renameApiMethods\<close> of \<open>generate-api-types.js\<close>\<close>

definition is_word_char :: "char \<Rightarrow> bool" where
  "is_word_char c \<longleftrightarrow>
     c \<in> set ''abcdefghijklmnopqrstuvwxyzABCDEFGHIJKLMNOPQRSTUVWXYZ0123456789_''"

definition is_upper :: "char \<Rightarrow> bool" where
  "is_upper c \<longleftrightarrow> c \<in> set ''ABCDEFGHIJKLMNOPQRSTUVWXYZ''"

definition to_lower :: "char \<Rightarrow> char" where
  "to_lower c =
     (case map_of (zip ''ABCDEFGHIJKLMNOPQRSTUVWXYZ'' ''abcdefghijklmnopqrstuvwxyz'') c of
        Some l \<Rightarrow> l
      | None \<Rightarrow> c)"

text \<open>
  \<open>/(\w+)Controller([A-Z]\w+)/g\<close> at the start of a text. All of the pattern is word
  characters, so a match lies in the run of word characters that starts the text, and its
  second group, greedy and last, ends where the run ends. The first group is greedy too:
  it is as long as possible, leaving \<open>Controller\<close>, an upper-case letter and at least one
  more character. \<open>method_start run i\<close> says that the second group can start at index
  \<open>i\<close> of the run; the greatest such index is taken. The callback puts the second group
  with its first letter in lower case.
\<close>

definition method_start :: "string \<Rightarrow> nat \<Rightarrow> bool" where
  "method_start run i \<longleftrightarrow>
     11 \<le> i \<and> suffix ''Controller'' (take i run)
     \<and> (case drop i run of c # d # rest \<Rightarrow> is_upper c | _ \<Rightarrow> False)"

definition match_controller :: "string \<Rightarrow> (string \<times> nat) option" where
  "match_controller s =
     (let run = takeWhile is_word_char s
      in case find (method_start run) (rev [0..<length run]) of
           Some i \<Rightarrow>
             (let methodName = drop i run
              in Some (to_lower (hd methodName) # tl methodName, length run))
         | None \<Rightarrow> None)"

definition rename_methods :: "string \<Rightarrow> string" where
  "rename_methods content = replace_all match_controller content"

text \<open>
  \<open>renameApiMethods\<close> rewrites the files of the directory \<open>api\<close> whose name ends with
  \<open>.ts\<close> and starts with an upper-case letter, but for \<open>index.ts\<close> and \<open>HttpClient.ts\<close>.
\<close>

definition renameApiMethods :: "(string \<times> string) list \<Rightarrow> (string \<times> string) list" where
  "renameApiMethods apiDir =
     map (\<lambda>(file, content).
            if suffix ''.ts'' file \<and> file \<noteq> ''index.ts'' \<and> file \<noteq> ''HttpClient.ts''
               \<and> is_upper (hd file)
            then (file, rename_methods content)
            else (file, content))
       apiDir"
subsection \<open>Examples and auxiliary notions\<close>

definition example_files :: "string \<Rightarrow> manifest_file" where
  "example_files =
     (\<lambda>p. Missing)
       (''config'' := Json (Obj [(''name'', Str ''@fecommunity/reactpress-config''),
                               (''version'', Str ''1.0.0'')]),
        ''server'' := Unparseable)"

definition is_NpmView :: "step \<Rightarrow> bool" where
  "is_NpmView s = (case s of NpmView n v \<Rightarrow> True | _ \<Rightarrow> False)"

definition all_taken :: env where
  "all_taken =
     \<lparr>npm_view = (\<lambda>n v. True), build_succeeds = (\<lambda>p. True), publish_succeeds = (\<lambda>p t. True),
      dir_exists = (\<lambda>p. True), pnpm_installed = True, logged_in = True,
      git_branch = Some ''main'', gh_release_succeeds = True\<rparr>"

definition example_manifests :: "string \<Rightarrow> manifest_file" where
  "example_manifests =
     (\<lambda>p. Missing)
       (''config'' := Json (Obj [(''name'', Str ''@fecommunity/reactpress-config''),
                               (''version'', Str ''1.0.0'')]),
        ''server'' := Json (Obj [(''name'', Str ''@fecommunity/reactpress-server''),
                               (''version'', Str ''1.0.0''),
                               (''dependencies'',
                                  Obj [(''@fecommunity/reactpress-config'', Str ''workspace:^1.0.0''),
                                       (''lodash'', Str ''^4.17.21'')])]))"

definition example_versions :: "(string \<times> jsval) list" where
  "example_versions =
     [(''@fecommunity/reactpress-config'', Str ''1.0.0''),
      (''@fecommunity/reactpress-server'', Str ''1.0.1''),
      (''@fecommunity/reactpress-client'', Str ''unknown'')]"

definition pipeline_step :: "string \<Rightarrow> step \<Rightarrow> bool" where
  "pipeline_step p s =
     (case s of
        FixWorkspaceDependencies q \<Rightarrow> q = p
      | UpdateVersion q \<Rightarrow> q = p
      | BuildPackage q \<Rightarrow> q = p
      | PublishPackage q t \<Rightarrow> q = p
      | RestoreWorkspaceDependencies q \<Rightarrow> q = p
      | _ \<Rightarrow> False)"

definition expected_pipeline :: "bool \<Rightarrow> string \<Rightarrow> string \<Rightarrow> step list" where
  "expected_pipeline noBuild p t =
     [FixWorkspaceDependencies p, UpdateVersion p] @ (if noBuild then [] else [BuildPackage p])
     @ [PublishPackage p t, RestoreWorkspaceDependencies p]"

definition is_quiet :: "step \<Rightarrow> bool" where
  "is_quiet s =
     (case s of
        GetCurrentVersion p \<Rightarrow> True
      | GetNextAvailableVersion n \<Rightarrow> True
      | NpmView n v \<Rightarrow> True
      | CreateGitHubRelease t \<Rightarrow> True
      | _ \<Rightarrow> False)"

definition block_steps :: "bool \<Rightarrow> string \<Rightarrow> string \<Rightarrow> step list \<Rightarrow> bool" where
  "block_steps nb p t new \<longleftrightarrow>
     new = [FixWorkspaceDependencies p]
     \<or> (\<exists>mid. new = FixWorkspaceDependencies p # UpdateVersion p # mid
                 @ [RestoreWorkspaceDependencies p]
            \<and> (mid = [] \<or> mid = [BuildPackage p] \<and> \<not> nb
               \<or> mid = (if nb then [] else [BuildPackage p]) @ [PublishPackage p t]))"

definition ordered_pipelines :: "bool \<Rightarrow> step list \<Rightarrow> bool" where
  "ordered_pipelines nb xs \<longleftrightarrow>
     (\<forall>q t. PublishPackage q t \<in> set xs \<longrightarrow> filter (pipeline_step q) xs = expected_pipeline nb q t)"

definition version_known :: "string \<Rightarrow> string \<Rightarrow> step list \<Rightarrow> bool" where
  "version_known vt q xs \<longleftrightarrow>
     (if vt = ''custom'' then subseq [GetCurrentVersion q] xs
      else \<exists>n. subseq [GetCurrentVersion q, GetNextAvailableVersion n] xs)"

definition fix_preceded :: "string \<Rightarrow> string \<Rightarrow> step list \<Rightarrow> bool" where
  "fix_preceded vt q xs \<longleftrightarrow>
     (if vt = ''custom'' then subseq [GetCurrentVersion q, FixWorkspaceDependencies q] xs
      else \<exists>n. subseq [GetCurrentVersion q, GetNextAvailableVersion n,
                        FixWorkspaceDependencies q] xs)"

definition fixes_preceded :: "string \<Rightarrow> step list \<Rightarrow> bool" where
  "fixes_preceded vt xs \<longleftrightarrow>
     (\<forall>q. FixWorkspaceDependencies q \<in> set xs \<longrightarrow> fix_preceded vt q xs)"

definition failed :: "env \<Rightarrow> step \<Rightarrow> bool" where
  "failed ev s =
     (case s of
        BuildPackage p \<Rightarrow> build_command p \<noteq> None \<and> \<not> build_succeeds ev p
      | PublishPackage p t \<Rightarrow> \<not> publish_succeeds ev p t
      | _ \<Rightarrow> False)"

definition manifest_kept :: "manifest_file \<Rightarrow> manifest_file \<Rightarrow> bool" where
  "manifest_kept f f' \<longleftrightarrow>
     f' = f
     \<or> (case (f, f') of
          (Json pkg, Json pkg') \<Rightarrow>
            stringified pkg' = pkg'
            \<and> list_all
                (\<lambda>d. case get_property (stringified pkg) d of
                       Inr s \<Rightarrow>
                         (case get_property pkg' d of
                            Inr s' \<Rightarrow> section_restored s s'
                          | Inl e \<Rightarrow> False)
                     | Inl e \<Rightarrow> True)
                depTypes
        | _ \<Rightarrow> False)"

definition deps_kept :: "world \<Rightarrow> world \<Rightarrow> bool" where
  "deps_kept w w' \<longleftrightarrow> (\<forall>q. manifest_kept (files w q) (files w' q))"

definition steps_fine :: "bool \<Rightarrow> string \<Rightarrow> step list \<Rightarrow> bool" where
  "steps_fine nb vt xs \<longleftrightarrow> ordered_pipelines nb xs \<and> fixes_preceded vt xs"

definition is_build :: "step \<Rightarrow> bool" where
  "is_build s = (case s of BuildPackage p \<Rightarrow> True | _ \<Rightarrow> False)"

definition registry_empty :: env where
  "registry_empty =
     \<lparr>npm_view = (\<lambda>n v. False), build_succeeds = (\<lambda>p. True), publish_succeeds = (\<lambda>p t. True),
      dir_exists = (\<lambda>p. True), pnpm_installed = True, logged_in = True,
      git_branch = Some ''develop'', gh_release_succeeds = True\<rparr>"

definition publish_server_patch :: answers where
  "publish_server_patch =
     \<lparr>action = ''publish-one'',
      selectedPackage = \<lparr>name = ''@fecommunity/reactpress-server'', path = ''server'',
                          description = ''Backend API server package''\<rparr>,
      versionType = ''patch'', customVersion = '''', customVersionFor = (\<lambda>n. ''''),
      tag = ''beta'', confirm = True\<rparr>"

definition star_manifests :: "string \<Rightarrow> manifest_file" where
  "star_manifests =
     (\<lambda>p. Missing)
       (''config'' := Json (Obj [(''name'', Str ''@fecommunity/reactpress-config''),
                               (''version'', Str ''1.0.0'')]),
        ''server'' := Json (Obj [(''name'', Str ''@fecommunity/reactpress-server''),
                               (''version'', Str ''1.0.0''),
                               (''dependencies'',
                                  Obj [(''@fecommunity/reactpress-config'', Str ''workspace:*''),
                                       (''lodash'', Str ''^4.17.21'')])]))"

definition publish_fails :: env where
  "publish_fails =
     \<lparr>npm_view = (\<lambda>n v. False), build_succeeds = (\<lambda>p. True), publish_succeeds = (\<lambda>p t. False),
      dir_exists = (\<lambda>p. True), pnpm_installed = True, logged_in = True,
      git_branch = Some ''develop'', gh_release_succeeds = True\<rparr>"

definition overflow_manifest :: jsval where
  "overflow_manifest =
     Obj [(''name'', Str ''@fecommunity/reactpress-server''), (''version'', Str ''1.0.0''),
          (''limit'', Num Infinity),
          (''dependencies'', Obj [(''lodash'', Str ''^4.17.21'')])]"
subsection \<open>Notions used to state the properties of the code generator\<close>



section \<open>Numbers, digits and splitting\<close>

declare dec.simps [simp del] bitlen.simps [simp del]

lemma digit_char_props:
  assumes "0 \<le> d" "d < 10"
  shows "is_digit (digit_char d)" and "digit_of (digit_char d) = Some d"
proof -
  from assms have "d \<in> {0, 1, 2, 3, 4, 5, 6, 7, 8, 9}" by simp presburger
  then show "is_digit (digit_char d)" and "digit_of (digit_char d) = Some d"
    by (auto simp: digit_char_def is_digit_def digit_of_def digit_table_def)
qed

lemma dec_nonempty: "dec n \<noteq> []"
  by (subst dec.simps) simp

lemma dec_digits: "0 \<le> n \<Longrightarrow> list_all is_digit (dec n)"
proof (induction n rule: dec.induct)
  case (1 n)
  show ?case
  proof (cases "n < 10")
    case True
    with 1(2) show ?thesis by (subst dec.simps) (simp add: digit_char_props)
  next
    case False
    with 1 have "list_all is_digit (dec (n div 10))" by simp
    moreover have "is_digit (digit_char (n mod 10))" by (rule digit_char_props) simp_all
    ultimately show ?thesis using False by (subst dec.simps) simp
  qed
qed

lemma digits_value_snoc:
  "digits_value r (ds @ [c]) = digits_value r ds * r + the (digit_of c)"
  by (simp add: digits_value_def)

lemma digits_value_dec: "0 \<le> n \<Longrightarrow> digits_value 10 (dec n) = n"
proof (induction n rule: dec.induct)
  case (1 n)
  show ?case
  proof (cases "n < 10")
    case True
    with 1(2) show ?thesis
      by (subst dec.simps) (simp add: digits_value_def digit_char_props)
  next
    case False
    with 1 have "digits_value 10 (dec (n div 10)) = n div 10" by simp
    moreover have "digit_of (digit_char (n mod 10)) = Some (n mod 10)"
      by (rule digit_char_props) simp_all
    ultimately show ?thesis using False
      by (subst dec.simps) (simp add: digits_value_snoc)
  qed
qed

lemma is_digit_not_ws: "is_digit c \<Longrightarrow> \<not> is_white_space c"
  by (auto simp: is_digit_def is_white_space_def)

lemma is_digit_not_lt: "is_digit c \<Longrightarrow> \<not> is_line_terminator c"
  by (auto simp: is_digit_def is_line_terminator_def)

lemma is_digit_radix: "is_digit c \<Longrightarrow> is_radix_digit 10 c"
  by (auto simp: is_digit_def) (simp_all add: is_radix_digit_def digit_of_def digit_table_def)

lemma is_digit_not_special:
  "is_digit c \<Longrightarrow> c \<noteq> CHR ''-'' \<and> c \<noteq> CHR ''+'' \<and> c \<noteq> CHR ''x'' \<and> c \<noteq> CHR ''X'' \<and> c \<noteq> CHR ''.''"
  by (auto simp: is_digit_def)

lemma parseInt_digits:
  assumes "ds \<noteq> []" "list_all is_digit ds"
  shows "parseInt ds = to_double (digits_value 10 ds)"
proof -
  from assms obtain c cs where ds: "ds = c # cs" by (cases ds) auto
  with assms have c: "is_digit c" and cs: "list_all is_digit cs" by auto
  have 1: "dropWhile is_white_space ds = ds" using c ds is_digit_not_ws is_digit_not_lt is_digit_radix is_digit_not_special by simp
  have 2: "take 1 ds \<noteq> ''-''" "take 1 ds \<noteq> ''+''" using c ds is_digit_not_ws is_digit_not_lt is_digit_radix is_digit_not_special by auto
  have 3: "take 2 ds \<noteq> ''0x''" "take 2 ds \<noteq> ''0X''"
    using cs ds is_digit_not_ws is_digit_not_lt is_digit_radix is_digit_not_special by (cases cs; auto)+
  have 4: "takeWhile (is_radix_digit 10) ds = ds"
    using assms(2) is_digit_not_ws is_digit_not_lt is_digit_radix is_digit_not_special by (simp add: list_all_iff)
  show ?thesis
    using 2 3 assms(1) by (simp add: parseInt_def Let_def 1 4)
qed

lemma round_double_small: "m \<le> 2 ^ 53 \<Longrightarrow> round_double m = m"
proof (cases "m < 2 ^ 53")
  case True
  then show ?thesis by (simp add: round_double_def)
next
  case False
  moreover assume "m \<le> 2 ^ 53"
  ultimately have "m = 9007199254740992" by simp
  moreover have "round_double 9007199254740992 = 9007199254740992" by code_simp
  ultimately show ?thesis by simp
qed

lemma to_double_small: "0 \<le> z \<Longrightarrow> z \<le> 2 ^ 53 \<Longrightarrow> to_double z = Fin z"
proof -
  assume z: "0 \<le> z" "z \<le> 2 ^ 53"
  have "(2::int) ^ 53 < 2 ^ 1024" by simp
  with z have "\<not> 2 ^ 1024 \<le> z" by linarith
  with z show ?thesis by (simp add: to_double_def round_double_small)
qed

lemma nat_toString_small: "m \<le> 2 ^ 53 \<Longrightarrow> nat_toString m = dec m"
proof (cases "m < 2 ^ 53")
  case True
  then show ?thesis by (simp add: nat_toString_def)
next
  case False
  moreover assume "m \<le> 2 ^ 53"
  ultimately have "m = 9007199254740992" by simp
  moreover have "nat_toString 9007199254740992 = dec 9007199254740992" by code_simp
  ultimately show ?thesis by simp
qed

lemma parseInt_dec: "0 \<le> n \<Longrightarrow> n \<le> 2 ^ 53 \<Longrightarrow> parseInt (dec n) = Fin n"
  by (simp add: parseInt_digits dec_nonempty dec_digits digits_value_dec to_double_small)

lemma bump_small:
  "0 \<le> n \<Longrightarrow> n < 2 ^ 53 \<Longrightarrow> Number_toString (add1 (Fin n)) = dec (n + 1)"
  by (simp add: to_double_small nat_toString_small)

lemma print_small: "0 \<le> n \<Longrightarrow> n \<le> 2 ^ 53 \<Longrightarrow> Number_toString (Fin n) = dec n"
  by (simp add: nat_toString_small)

lemma split_on_absent: "c \<notin> set s \<Longrightarrow> split_on c s = [s]"
  by (induction s) auto

lemma split_on_append: "c \<notin> set a \<Longrightarrow> split_on c (a @ c # b) = a # split_on c b"
  by (induction a) auto

lemma split_on_nonempty: "split_on c s \<noteq> []"
  by (induction s) (auto split: list.splits)

lemma takeWhile_digits_rev:
  assumes "list_all is_digit ds" "\<not> is_digit c"
  shows "takeWhile is_digit (rev ds @ c # rest) = rev ds"
proof -
  have "takeWhile is_digit (rev ds @ c # rest) = rev ds @ takeWhile is_digit (c # rest)"
    using assms(1) by (intro takeWhile_append2) (simp add: list_all_iff)
  with assms(2) show ?thesis by simp
qed

lemma match_prerelease_hit:
  assumes "ds \<noteq> []" "list_all is_digit ds" "\<not> list_ex is_line_terminator base"
  shows "match_prerelease tg (base @ ''-'' @ tg @ ''.'' @ ds) = Some (base, ds)"
proof -
  let ?v = "base @ ''-'' @ tg @ ''.'' @ ds"
  have "\<not> is_digit (CHR ''.'')" by (simp add: is_digit_def)
  then have "takeWhile is_digit (rev ds @ CHR ''.'' # (rev tg @ CHR ''-'' # rev base)) = rev ds"
    using assms(2) by (rule takeWhile_digits_rev[rotated])
  then have tw: "rev (takeWhile is_digit (rev ?v)) = ds" by simp
  have front: "take (length ?v - length ds) ?v = base @ ''-'' @ tg @ ''.''" by simp
  show ?thesis
    unfolding match_prerelease_def Let_def tw front using assms(1,3)
    by (simp add: suffix_def)
qed

lemma match_prerelease_sound:
  assumes "match_prerelease tg version = Some (base, ds)"
  shows "version = base @ ''-'' @ tg @ ''.'' @ ds \<and> ds \<noteq> [] \<and> list_all is_digit ds"
proof -
  let ?t = "takeWhile is_digit (rev version)"
  let ?front = "take (length version - length (rev ?t)) version"
  let ?sep = "''-'' @ tg @ ''.''"
  from assms have ds: "ds = rev ?t" and ne: "ds \<noteq> []" and suf: "suffix ?sep ?front"
    and base: "base = take (length ?front - length ?sep) ?front"
    by (auto simp: match_prerelease_def Let_def split: if_splits)
  have "rev version = ?t @ dropWhile is_digit (rev version)" by simp
  then have "version = rev (dropWhile is_digit (rev version)) @ rev ?t"
    by (metis rev_append rev_rev_ident)
  then have v: "version = ?front @ ds"
    by (metis append_eq_conv_conj append_take_drop_id ds length_rev length_append add_diff_cancel_right')
  from suf obtain b where b: "?front = b @ ?sep" by (auto simp: suffix_def)
  then have "base = b" using base by simp
  with v b have "version = base @ ?sep @ ds" by simp
  moreover have "list_all is_digit ds"
    unfolding ds by (auto simp: list_all_iff dest: set_takeWhileD)
  ultimately show ?thesis using ne by simp
qed

lemma match_prerelease_miss:
  assumes "\<forall>b ds. ds \<noteq> [] \<and> list_all is_digit ds \<longrightarrow> version \<noteq> b @ ''-'' @ tg @ ''.'' @ ds"
  shows "match_prerelease tg version = None"
proof (cases "match_prerelease tg version")
  case None
  then show ?thesis .
next
  case (Some p)
  then obtain b ds where "match_prerelease tg version = Some (b, ds)" by (cases p) auto
  from match_prerelease_sound[OF this] assms show ?thesis by blast
qed

lemma dec_no_dot: "0 \<le> n \<Longrightarrow> CHR ''.'' \<notin> set (dec n)"
  using dec_digits[of n] is_digit_not_special by (auto simp: list_all_iff)

lemma dec_no_dash: "0 \<le> n \<Longrightarrow> CHR ''-'' \<notin> set (dec n)"
  using dec_digits[of n] is_digit_not_special by (auto simp: list_all_iff)

lemma parts_semver:
  assumes "0 \<le> a" "0 \<le> b" "0 \<le> c"
  shows "split_on (CHR ''.'') (hd (split_on (CHR ''-'') (dec a @ ''.'' @ dec b @ ''.'' @ dec c)))
         = [dec a, dec b, dec c]"
proof -
  have "CHR ''-'' \<notin> set (dec a @ ''.'' @ dec b @ ''.'' @ dec c)"
    using assms by (simp add: dec_no_dash)
  then have "hd (split_on (CHR ''-'') (dec a @ ''.'' @ dec b @ ''.'' @ dec c))
             = dec a @ ''.'' @ dec b @ ''.'' @ dec c"
    by (simp add: split_on_absent del: append.simps)
  moreover have "split_on (CHR ''.'') (dec a @ CHR ''.'' # dec b @ CHR ''.'' # dec c)
                 = [dec a, dec b, dec c]"
    using assms by (simp add: split_on_append split_on_absent dec_no_dot)
  ultimately show ?thesis by simp
qed

lemma nat_below_ten: "(k::nat) < 10 \<Longrightarrow> k \<in> {0, 1, 2, 3, 4, 5, 6, 7, 8, 9}"
  by auto

lemma digit_char_is_digit: "d < 10 \<Longrightarrow> is_digit (digit_char d)"
proof -
  assume "d < 10"
  then have "nat d \<in> {0, 1, 2, 3, 4, 5, 6, 7, 8, 9}" using nat_below_ten[of "nat d"] by simp
  then show ?thesis by (auto simp: digit_char_def is_digit_def)
qed

lemma dec_all_digits: "list_all is_digit (dec n)"
proof (induction n rule: dec.induct)
  case (1 n)
  show ?case
  proof (cases "n < 10")
    case True
    then show ?thesis by (subst dec.simps) (simp add: digit_char_is_digit)
  next
    case False
    with 1 have "list_all is_digit (dec (n div 10))" by simp
    moreover have "is_digit (digit_char (n mod 10))" by (rule digit_char_is_digit) simp
    ultimately show ?thesis using False by (subst dec.simps) simp
  qed
qed

lemma dec_chars: "c \<in> set (dec n) \<Longrightarrow> is_digit c"
  using dec_all_digits[of n] by (simp add: list_all_iff)

lemma round_double_nonneg: "0 \<le> m \<Longrightarrow> 0 \<le> round_double m"
  by (simp add: round_double_def Let_def pos_imp_zdiv_nonneg_iff)

lemma to_double_nonneg: "0 \<le> z \<Longrightarrow> nonneg_num (to_double z)"
  by (simp add: to_double_def Let_def nonneg_num_def round_double_nonneg)

lemma add1_nonneg:
  assumes "nonneg_num x"
  shows "nonneg_num (add1 x)"
proof (cases x)
  case (Fin n)
  with assms have "0 \<le> n + 1" by (simp add: nonneg_num_def)
  then have "nonneg_num (to_double (n + 1))" by (rule to_double_nonneg)
  with Fin show ?thesis by simp
qed (use assms in \<open>simp_all add: nonneg_num_def\<close>)

lemma digit_of_nonneg: "digit_of c = Some v \<Longrightarrow> 0 \<le> v"
proof -
  assume "digit_of c = Some v"
  then have "(c, v) \<in> set digit_table" unfolding digit_of_def by (rule map_of_SomeD)
  then show ?thesis by (auto simp: digit_table_def)
qed

lemma foldl_digits_nonneg:
  "0 \<le> r \<Longrightarrow> 0 \<le> a \<Longrightarrow> \<forall>c\<in>set ds. is_radix_digit r c \<Longrightarrow>
     0 \<le> foldl (\<lambda>a c. a * r + the (digit_of c)) a ds"
proof (induction ds arbitrary: a)
  case Nil
  then show ?case by simp
next
  case (Cons c ds)
  from Cons.prems(3) obtain v where v: "digit_of c = Some v"
    by (auto simp: is_radix_digit_def split: option.splits)
  then have "0 \<le> a * r + the (digit_of c)"
    using Cons.prems(1,2) digit_of_nonneg[OF v] by simp
  with Cons show ?case by simp
qed

lemma parseInt_nonneg:
  assumes "CHR ''-'' \<notin> set s"
  shows "nonneg_num (parseInt s)"
proof -
  let ?s = "dropWhile is_white_space s"
  have "set ?s \<subseteq> set s" by (rule set_dropWhileD[THEN subsetI]) 
  with assms have "CHR ''-'' \<notin> set ?s" by auto
  note nodash = this
  have neg: "take 1 ?s \<noteq> ''-''"
  proof
    assume "take 1 ?s = ''-''"
    then have "CHR ''-'' \<in> set (take 1 ?s)" by simp
    then have "CHR ''-'' \<in> set ?s" by (rule in_set_takeD)
    with nodash show False by simp
  qed
  have v: "0 \<le> digits_value r (takeWhile (is_radix_digit r) t)" if "0 \<le> r" for r t
    unfolding digits_value_def using that
    by (intro foldl_digits_nonneg) (auto dest: set_takeWhileD)
  show ?thesis
    unfolding parseInt_def Let_def using neg
    by (auto simp: nonneg_num_def[of NaN] intro!: to_double_nonneg v)
qed

lemma nat_toString_no_dash: "CHR ''-'' \<notin> set (nat_toString m)"
proof -
  have d: "CHR ''-'' \<notin> set (dec x)" for x
    using dec_chars[of "CHR ''-''" x] by (auto simp: is_digit_def)
  have t: "CHR ''-'' \<notin> set (take i (dec x))" "CHR ''-'' \<notin> set (drop i (dec x))" for i x
    using d[of x] by (auto dest: in_set_takeD in_set_dropD)
  show ?thesis
    unfolding nat_toString_def using d t
    by (auto split: prod.splits if_splits)
qed

lemma Number_toString_no_dash: "nonneg_num x \<Longrightarrow> CHR ''-'' \<notin> set (Number_toString x)"
  by (cases x) (auto simp: nonneg_num_def nat_toString_no_dash)

lemma set_part_no_dash:
  assumes "CHR ''-'' \<notin> set s"
  shows "CHR ''-'' \<notin> set (part (split_on c s) i)"
proof -
  have "\<forall>p \<in> set (split_on c s). set p \<subseteq> set s"
    by (induction s) (auto split: list.splits if_splits)
  then show ?thesis using assms by (auto simp: part_def)
qed

lemma dec_small: "0 \<le> n \<Longrightarrow> n < 10 \<Longrightarrow> dec n = [digit_char n]"
  by (subst dec.simps) simp

section \<open>The next version\<close>

text \<open>
  Claim C4, amended. For a version \<open>A.B.C\<close> of three decimal numerals below \<open>2 ^ 53\<close>,
  \<open>incrementVersion\<close> returns \<open>(A+1).0.0\<close> for \<open>major\<close>, \<open>A.(B+1).0\<close> for
  \<open>minor\<close> and \<open>A.B.(C+1)\<close> for \<open>patch\<close>. For \<open>beta\<close>, a version
  \<open>base-beta.N\<close> with \<open>N\<close> below \<open>2 ^ 53\<close> and no line terminator in \<open>base\<close> becomes
  \<open>base-beta.(N+1)\<close>, and a version that does not end in \<open>-beta.\<close> and digits gets
  \<open>-beta.1\<close> appended. The bound is that of the Number type: from \<open>2 ^ 53\<close> on,
  adding one to a double need not change it.
\<close>

theorem incrementVersion_next:
  "(int A < 2 ^ 53 \<and> int B < 2 ^ 53 \<and> int C < 2 ^ 53 \<longrightarrow>
      incrementVersion (Str (dec (int A) @ ''.'' @ dec (int B) @ ''.'' @ dec (int C))) ''major''
        = Inr (dec (int A + 1) @ ''.0.0'')
    \<and> incrementVersion (Str (dec (int A) @ ''.'' @ dec (int B) @ ''.'' @ dec (int C))) ''minor''
        = Inr (dec (int A) @ ''.'' @ dec (int B + 1) @ ''.0'')
    \<and> incrementVersion (Str (dec (int A) @ ''.'' @ dec (int B) @ ''.'' @ dec (int C))) ''patch''
        = Inr (dec (int A) @ ''.'' @ dec (int B) @ ''.'' @ dec (int C + 1)))
   \<and> (int N < 2 ^ 53 \<and> \<not> list_ex is_line_terminator base \<longrightarrow>
        incrementVersion (Str (base @ ''-beta.'' @ dec (int N))) ''beta''
          = Inr (base @ ''-beta.'' @ dec (int N + 1)))
   \<and> ((\<forall>b ds. ds \<noteq> [] \<and> list_all is_digit ds \<longrightarrow> version \<noteq> b @ ''-beta.'' @ ds) \<longrightarrow>
        incrementVersion (Str version) ''beta'' = Inr (version @ ''-beta.1''))"
proof (intro conjI impI)
  assume h: "int A < 2 ^ 53 \<and> int B < 2 ^ 53 \<and> int C < 2 ^ 53"
  let ?v = "dec (int A) @ ''.'' @ dec (int B) @ ''.'' @ dec (int C)"
  have parts: "split_on (CHR ''.'') (hd (split_on (CHR ''-'') ?v))
               = [dec (int A), dec (int B), dec (int C)]"
    by (rule parts_semver) simp_all
  have p: "parseInt (dec (int A)) = Fin (int A)" "parseInt (dec (int B)) = Fin (int B)"
    "parseInt (dec (int C)) = Fin (int C)"
    using h by (simp_all add: parseInt_dec)
  show "incrementVersion (Str ?v) ''major'' = Inr (dec (int A + 1) @ ''.0.0'')"
    unfolding incrementVersion_def jsval.case Let_def parts
    using h by (simp add: part_def p bump_small del: add1.simps Number_toString.simps)
  show "incrementVersion (Str ?v) ''minor'' = Inr (dec (int A) @ ''.'' @ dec (int B + 1) @ ''.0'')"
    unfolding incrementVersion_def jsval.case Let_def parts
    using h by (simp add: part_def p bump_small print_small del: add1.simps Number_toString.simps)
  show "incrementVersion (Str ?v) ''patch''
        = Inr (dec (int A) @ ''.'' @ dec (int B) @ ''.'' @ dec (int C + 1))"
    unfolding incrementVersion_def jsval.case Let_def parts
    using h by (simp add: part_def p bump_small print_small del: add1.simps Number_toString.simps)
next
  assume h: "int N < 2 ^ 53 \<and> \<not> list_ex is_line_terminator base"
  have m: "match_prerelease ''beta'' (base @ ''-'' @ ''beta'' @ ''.'' @ dec (int N))
           = Some (base, dec (int N))"
    using h by (intro match_prerelease_hit) (simp_all add: dec_nonempty dec_digits)
  have p: "parseInt (dec (int N)) = Fin (int N)" using h by (simp add: parseInt_dec)
  show "incrementVersion (Str (base @ ''-beta.'' @ dec (int N))) ''beta''
        = Inr (base @ ''-beta.'' @ dec (int N + 1))"
    using h m by (simp add: incrementVersion_def Let_def p bump_small
        del: add1.simps Number_toString.simps)
next
  assume "\<forall>b ds. ds \<noteq> [] \<and> list_all is_digit ds \<longrightarrow> version \<noteq> b @ ''-beta.'' @ ds"
  then have "match_prerelease ''beta'' version = None"
    by (intro match_prerelease_miss) simp
  then show "incrementVersion (Str version) ''beta'' = Inr (version @ ''-beta.1'')"
    by (simp add: incrementVersion_def Let_def)
qed

theorem incrementVersion_next_witness:
  "incrementVersion (Str ''1.2.3'') ''major'' = Inr ''2.0.0''
   \<and> incrementVersion (Str ''1.2.3'') ''minor'' = Inr ''1.3.0''
   \<and> incrementVersion (Str ''1.2.3'') ''patch'' = Inr ''1.2.4''
   \<and> incrementVersion (Str ''1.0.0-beta.1'') ''beta'' = Inr ''1.0.0-beta.2''
   \<and> incrementVersion (Str ''1.0.0'') ''beta'' = Inr ''1.0.0-beta.1''"
proof -
  have no: "\<forall>b ds. ds \<noteq> [] \<and> list_all is_digit ds \<longrightarrow> ''1.0.0'' \<noteq> b @ ''-beta.'' @ ds"
  proof (intro allI impI notI)
    fix b ds
    assume "''1.0.0'' = b @ ''-beta.'' @ ds"
    then have "set ''1.0.0'' = set (b @ ''-beta.'' @ ds)" by (rule arg_cong)
    then show False by auto
  qed
  have lt: "\<not> list_ex is_line_terminator ''1.0.0''"
    by (simp add: is_line_terminator_def)
  show ?thesis
    using incrementVersion_next[of 1 2 3 1 "''1.0.0''" "''1.0.0''"] no lt
    by (simp add: dec_small digit_char_def)
qed

text \<open>
  Without the bound the claim fails: \<open>parseInt\<close> reads \<open>9007199254740992\<close>
  (\<open>2 ^ 53\<close>) exactly, and \<open>2 ^ 53 + 1\<close> is again the double \<open>2 ^ 53\<close>, so the major
  bump returns the version it was given.
\<close>

theorem incrementVersion_counterexample:
  "incrementVersion (Str ''9007199254740992.0.0'') ''major'' = Inr ''9007199254740992.0.0''
   \<and> incrementVersion (Str ''9007199254740992.0.0'') ''major'' \<noteq> Inr ''9007199254740993.0.0''"
  by code_simp

lemma semver_bumps:
  assumes "int A < 2 ^ 53" "int B < 2 ^ 53" "int C < 2 ^ 53"
  shows "incrementVersion (Str (dec (int A) @ ''.'' @ dec (int B) @ ''.'' @ dec (int C))) ''major''
           = Inr (dec (int A + 1) @ ''.0.0'')"
    and "incrementVersion (Str (dec (int A) @ ''.'' @ dec (int B) @ ''.'' @ dec (int C))) ''minor''
           = Inr (dec (int A) @ ''.'' @ dec (int B + 1) @ ''.0'')"
    and "incrementVersion (Str (dec (int A) @ ''.'' @ dec (int B) @ ''.'' @ dec (int C))) ''patch''
           = Inr (dec (int A) @ ''.'' @ dec (int B) @ ''.'' @ dec (int C + 1))"
proof -
  let ?v = "dec (int A) @ ''.'' @ dec (int B) @ ''.'' @ dec (int C)"
  have parts: "split_on (CHR ''.'') (hd (split_on (CHR ''-'') ?v))
               = [dec (int A), dec (int B), dec (int C)]"
    by (rule parts_semver) simp_all
  have p: "parseInt (dec (int A)) = Fin (int A)" "parseInt (dec (int B)) = Fin (int B)"
    "parseInt (dec (int C)) = Fin (int C)"
    using assms by (simp_all add: parseInt_dec)
  show "incrementVersion (Str ?v) ''major'' = Inr (dec (int A + 1) @ ''.0.0'')"
    unfolding incrementVersion_def jsval.case Let_def parts
    using assms by (simp add: part_def p bump_small del: add1.simps Number_toString.simps)
  show "incrementVersion (Str ?v) ''minor'' = Inr (dec (int A) @ ''.'' @ dec (int B + 1) @ ''.0'')"
    unfolding incrementVersion_def jsval.case Let_def parts
    using assms
    by (simp add: part_def p bump_small print_small del: add1.simps Number_toString.simps)
  show "incrementVersion (Str ?v) ''patch''
        = Inr (dec (int A) @ ''.'' @ dec (int B) @ ''.'' @ dec (int C + 1))"
    unfolding incrementVersion_def jsval.case Let_def parts
    using assms
    by (simp add: part_def p bump_small print_small del: add1.simps Number_toString.simps)
qed

lemma prerelease_cut:
  assumes "CHR ''-'' \<notin> set base" and "vtype \<in> {''major'', ''minor'', ''patch''}"
  shows "incrementVersion (Str (base @ ''-'' @ pre)) vtype = incrementVersion (Str base) vtype"
proof -
  have hd1: "hd (split_on (CHR ''-'') (base @ ''-'' @ pre)) = base"
    using assms(1) by (simp add: split_on_append)
  have hd2: "hd (split_on (CHR ''-'') base) = base"
    using assms(1) by (simp add: split_on_absent)
  show ?thesis
    unfolding incrementVersion_def jsval.case Let_def hd1 hd2 using assms(2) by auto
qed

text \<open>
  Claim C10, amended. For a version \<open>A.B.C-pre\<close> of three decimal numerals below
  \<open>2 ^ 53\<close> and any prerelease part, \<open>incrementVersion\<close> returns \<open>(A+1).0.0\<close> for
  \<open>major\<close>, \<open>A.(B+1).0\<close> for \<open>minor\<close> and \<open>A.B.(C+1)\<close> for \<open>patch\<close>: the
  prerelease part is gone and the base is incremented. Whatever the base is (\<open>base\<close>
  being all before the first \<open>-\<close>), the next version for these three bumps is the one
  computed from the base alone, and it holds no \<open>-\<close>. The patch bump of
  \<open>1.2.3-beta.4\<close> is \<open>1.2.4\<close>.
\<close>

theorem incrementVersion_drops_prerelease:
  "(int A < 2 ^ 53 \<and> int B < 2 ^ 53 \<and> int C < 2 ^ 53 \<longrightarrow>
      incrementVersion
        (Str (dec (int A) @ ''.'' @ dec (int B) @ ''.'' @ dec (int C) @ ''-'' @ pre)) ''major''
        = Inr (dec (int A + 1) @ ''.0.0'')
    \<and> incrementVersion
        (Str (dec (int A) @ ''.'' @ dec (int B) @ ''.'' @ dec (int C) @ ''-'' @ pre)) ''minor''
        = Inr (dec (int A) @ ''.'' @ dec (int B + 1) @ ''.0'')
    \<and> incrementVersion
        (Str (dec (int A) @ ''.'' @ dec (int B) @ ''.'' @ dec (int C) @ ''-'' @ pre)) ''patch''
        = Inr (dec (int A) @ ''.'' @ dec (int B) @ ''.'' @ dec (int C + 1)))
   \<and> (CHR ''-'' \<notin> set base \<and> vtype \<in> {''major'', ''minor'', ''patch''} \<longrightarrow>
        incrementVersion (Str (base @ ''-'' @ pre)) vtype = incrementVersion (Str base) vtype
        \<and> (case incrementVersion (Str (base @ ''-'' @ pre)) vtype of
             Inr next_version \<Rightarrow> CHR ''-'' \<notin> set next_version
           | Inl e \<Rightarrow> False))"
proof (intro conjI impI)
  assume h: "int A < 2 ^ 53 \<and> int B < 2 ^ 53 \<and> int C < 2 ^ 53"
  let ?b = "dec (int A) @ ''.'' @ dec (int B) @ ''.'' @ dec (int C)"
  have nd: "CHR ''-'' \<notin> set ?b" by (simp add: dec_no_dash)
  have cut: "incrementVersion (Str (?b @ ''-'' @ pre)) vt = incrementVersion (Str ?b) vt"
    if "vt \<in> {''major'', ''minor'', ''patch''}" for vt
    using nd that by (rule prerelease_cut)
  have v: "dec (int A) @ ''.'' @ dec (int B) @ ''.'' @ dec (int C) @ ''-'' @ pre
           = ?b @ ''-'' @ pre" by simp
  from h have b: "int A < 2 ^ 53" "int B < 2 ^ 53" "int C < 2 ^ 53" by simp_all
  show "incrementVersion
          (Str (dec (int A) @ ''.'' @ dec (int B) @ ''.'' @ dec (int C) @ ''-'' @ pre)) ''major''
        = Inr (dec (int A + 1) @ ''.0.0'')"
    unfolding v using cut[of "''major''"] semver_bumps(1)[OF b] by simp
  show "incrementVersion
          (Str (dec (int A) @ ''.'' @ dec (int B) @ ''.'' @ dec (int C) @ ''-'' @ pre)) ''minor''
        = Inr (dec (int A) @ ''.'' @ dec (int B + 1) @ ''.0'')"
    unfolding v using cut[of "''minor''"] semver_bumps(2)[OF b] by simp
  show "incrementVersion
          (Str (dec (int A) @ ''.'' @ dec (int B) @ ''.'' @ dec (int C) @ ''-'' @ pre)) ''patch''
        = Inr (dec (int A) @ ''.'' @ dec (int B) @ ''.'' @ dec (int C + 1))"
    unfolding v using cut[of "''patch''"] semver_bumps(3)[OF b] by simp
next
  assume a: "CHR ''-'' \<notin> set base \<and> vtype \<in> {''major'', ''minor'', ''patch''}"
  then show "incrementVersion (Str (base @ ''-'' @ pre)) vtype = incrementVersion (Str base) vtype"
    by (intro prerelease_cut) simp_all
next
  assume a: "CHR ''-'' \<notin> set base \<and> vtype \<in> {''major'', ''minor'', ''patch''}"
  then have nb: "CHR ''-'' \<notin> set base" and vt: "vtype \<in> {''major'', ''minor'', ''patch''}"
    by simp_all
  have eq: "incrementVersion (Str (base @ ''-'' @ pre)) vtype = incrementVersion (Str base) vtype"
    using nb vt by (rule prerelease_cut)
  have hd2: "hd (split_on (CHR ''-'') base) = base"
    using nb by (simp add: split_on_absent)
  let ?p = "\<lambda>i. parseInt (part (split_on (CHR ''.'') base) i)"
  have nn: "nonneg_num (?p i)" for i
    by (intro parseInt_nonneg set_part_no_dash nb)
  have nd: "CHR ''-'' \<notin> set (Number_toString (?p i))"
    "CHR ''-'' \<notin> set (Number_toString (add1 (?p i)))" for i
    using nn[of i] by (simp_all add: Number_toString_no_dash add1_nonneg)
  have "case incrementVersion (Str base) vtype of
          Inr next_version \<Rightarrow> CHR ''-'' \<notin> set next_version | Inl e \<Rightarrow> False"
    unfolding incrementVersion_def jsval.case Let_def hd2 using vt nd
    by auto
  with eq show "case incrementVersion (Str (base @ ''-'' @ pre)) vtype of
             Inr next_version \<Rightarrow> CHR ''-'' \<notin> set next_version
           | Inl e \<Rightarrow> False" by simp
qed

theorem incrementVersion_drops_prerelease_witness:
  "incrementVersion (Str ''1.2.3-beta.4'') ''major'' = Inr ''2.0.0''
   \<and> incrementVersion (Str ''1.2.3-beta.4'') ''minor'' = Inr ''1.3.0''
   \<and> incrementVersion (Str ''1.2.3-beta.4'') ''patch'' = Inr ''1.2.4''
   \<and> incrementVersion (Str ''x-beta.4'') ''patch'' = incrementVersion (Str ''x'') ''patch''"
  using incrementVersion_drops_prerelease[of 1 2 3 "''beta.4''" "''x''" "''patch''" ]
  by (simp add: dec_small digit_char_def)

text \<open>
  Without the bound the base is not incremented: the major bump of
  \<open>9007199254740992.0.0-beta.1\<close> drops the prerelease part and returns the base as it
  is, since \<open>2 ^ 53 + 1\<close> is again the double \<open>2 ^ 53\<close>.
\<close>

theorem incrementVersion_prerelease_counterexample:
  "incrementVersion (Str ''9007199254740992.0.0-beta.1'') ''major''
     = Inr ''9007199254740992.0.0''
   \<and> incrementVersion (Str ''9007199254740992.0.0-beta.1'') ''major''
     \<noteq> Inr ''9007199254740993.0.0''"
  by code_simp
section \<open>The world: what the basic operations change\<close>

lemma steps_record_step [simp]: "steps (record_step s w) = steps w @ [s]"
  and messages_record_step [simp]: "messages (record_step s w) = messages w"
  and files_record_step [simp]: "files (record_step s w) = files w"
  by (simp_all add: record_step_def)

lemma steps_record_message [simp]: "steps (record_message m w) = steps w"
  and messages_record_message [simp]: "messages (record_message m w) = messages w @ [m]"
  and files_record_message [simp]: "files (record_message m w) = files w"
  by (simp_all add: record_message_def)

lemma steps_write_manifest [simp]: "steps (write_manifest p pkg w) = steps w"
  and messages_write_manifest [simp]: "messages (write_manifest p pkg w) = messages w"
  and files_write_manifest [simp]: "files (write_manifest p pkg w) = (files w)(p := written pkg)"
  by (simp_all add: write_manifest_def)

lemma read_manifest_record_step [simp]: "read_manifest (record_step s w) p = read_manifest w p"
  by (simp add: read_manifest_def)

section \<open>Reading the current version\<close>

text \<open>
  Claim C9. When the \<open>package.json\<close> of a package path cannot be read or cannot be
  parsed, \<open>getCurrentVersion\<close> returns the string \<open>unknown\<close>; it throws nothing, its
  result being a value in every case. For a manifest that parses to an object it returns
  the \<open>version\<close> property of the object (\<open>undefined\<close> when the object has none).
\<close>

theorem getCurrentVersion_result:
  "(files w p = Missing \<or> files w p = Unparseable \<longrightarrow>
      fst (getCurrentVersion p w) = Str ''unknown'')
   \<and> (files w p = Json (Obj props) \<longrightarrow>
      fst (getCurrentVersion p w)
        = (case map_of props ''version'' of Some v \<Rightarrow> v | None \<Rightarrow> Undefined))"
  by (auto simp: getCurrentVersion_def Let_def read_manifest_def)

theorem getCurrentVersion_result_witness:
  "fst (getCurrentVersion ''client'' \<lparr>files = example_files, messages = [], steps = []\<rparr>)
     = Str ''unknown''
   \<and> fst (getCurrentVersion ''server'' \<lparr>files = example_files, messages = [], steps = []\<rparr>)
     = Str ''unknown''
   \<and> fst (getCurrentVersion ''config'' \<lparr>files = example_files, messages = [], steps = []\<rparr>)
     = Str ''1.0.0''"
  using getCurrentVersion_result[of "\<lparr>files = example_files, messages = [], steps = []\<rparr>" "''client''"]
    getCurrentVersion_result[of "\<lparr>files = example_files, messages = [], steps = []\<rparr>" "''server''"]
    getCurrentVersion_result[of "\<lparr>files = example_files, messages = [], steps = []\<rparr>" "''config''"
      "[(''name'', Str ''@fecommunity/reactpress-config''), (''version'', Str ''1.0.0'')]"]
  by (simp add: example_files_def)

section \<open>Probing the registry\<close>

declare probe_loop.simps [simp del]

lemma incrementVersion_Str: "\<exists>v. incrementVersion (Str s) t = Inr v"
  by (auto simp: incrementVersion_def Let_def split: option.splits)

lemma probe_loop_world:
  "probe_loop ev n t v ex a w = ((v', a'), w') \<Longrightarrow>
     files w' = files w \<and> messages w' = messages w
     \<and> (\<exists>probes. steps w' = steps w @ probes \<and> list_all is_NpmView probes
           \<and> length probes \<le> (if ex then 100 - a else 0))"
proof (induction ev n t v ex a w arbitrary: v' a' w' rule: probe_loop.induct)
  case (1 ev n t v ex a w)
  show ?case
  proof (cases "ex \<and> a < 100")
    case False
    with 1(3) show ?thesis by (subst (asm) probe_loop.simps) auto
  next
    case True
    let ?w1 = "record_step (NpmView n v) w"
    let ?r = "if npm_view ev n v then incrementVersion (Str v) t else Inl (ExecError ''npm view'')"
    show ?thesis
    proof (cases ?r)
      case (Inr u)
      with True 1(3) have "probe_loop ev n t u ex (a + 1) ?w1 = ((v', a'), w')"
        by (subst (asm) probe_loop.simps) (simp add: Let_def)
      from 1(2)[OF True refl Inr this] True show ?thesis
        by (auto simp: is_NpmView_def)
    next
      case (Inl e)
      with True 1(3) have "probe_loop ev n t v False a ?w1 = ((v', a'), w')"
        by (subst (asm) probe_loop.simps) (simp add: Let_def)
      from 1(1)[OF True refl Inl this] True show ?thesis
        by (auto simp: is_NpmView_def)
    qed
  qed
qed

lemma probe_loop_exhausted_aux:
  "\<forall>v. npm_view ev n v \<Longrightarrow> ex \<Longrightarrow> a \<le> 100 \<Longrightarrow>
     snd (fst (probe_loop ev n t v ex a w)) = 100"
proof (induction ev n t v ex a w rule: probe_loop.induct)
  case (1 ev n t v ex a w)
  show ?case
  proof (cases "a < 100")
    case False
    with 1(5) show ?thesis by (subst probe_loop.simps) simp
  next
    case True
    obtain u where u: "incrementVersion (Str v) t = Inr u"
      using incrementVersion_Str by blast
    with 1(3) have r: "(if npm_view ev n v then incrementVersion (Str v) t
                        else Inl (ExecError ''npm view'')) = Inr u" by simp
    have "snd (fst (probe_loop ev n t u ex (a + 1) (record_step (NpmView n v) w))) = 100"
      using 1(2)[OF _ refl r] True 1(3,4) by simp
    with True r 1(4) show ?thesis by (subst probe_loop.simps) (simp add: Let_def)
  qed
qed

lemma probe_loop_exhausted:
  "\<forall>v. npm_view ev n v \<Longrightarrow> a \<le> 100 \<Longrightarrow> snd (fst (probe_loop ev n t v True a w)) = 100"
  by (rule probe_loop_exhausted_aux) simp_all

text \<open>
  Claim C2, evaluated on the code. A call of \<open>getNextAvailableVersion\<close> probes the
  registry at most 100 times. When every candidate it probes exists, it does not fail: the
  error it throws at the ceiling is caught by its own \<open>catch\<close>, which prints the warning
  that the registry could not be checked and returns the local increment of the current
  version, the first candidate, which the registry has.
\<close>

theorem getNextAvailableVersion_ceiling:
  "length (filter is_NpmView (steps (snd (getNextAvailableVersion ev n cur t w))))
     \<le> length (filter is_NpmView (steps w)) + 100
   \<and> ((\<forall>v. npm_view ev n v) \<longrightarrow>
        fst (getNextAvailableVersion ev n (Str version) t w) = incrementVersion (Str version) t
        \<and> \<not> isl (fst (getNextAvailableVersion ev n (Str version) t w))
        \<and> messages (snd (getNextAvailableVersion ev n (Str version) t w))
            = messages w @ [CouldNotCheckRegistry n])"
proof (intro conjI impI)
  let ?w0 = "record_step (GetNextAvailableVersion n) w"
  show "length (filter is_NpmView (steps (snd (getNextAvailableVersion ev n cur t w))))
        \<le> length (filter is_NpmView (steps w)) + 100"
  proof (cases "incrementVersion cur t")
    case (Inl e)
    then show ?thesis
      by (simp add: getNextAvailableVersion_def Let_def is_NpmView_def)
  next
    case (Inr v)
    obtain v' a' w' where p: "probe_loop ev n t v True 0 ?w0 = ((v', a'), w')"
      by (metis surj_pair)
    from probe_loop_world[OF p] obtain probes where
      st: "steps w' = steps ?w0 @ probes" and len: "length probes \<le> 100"
      by auto
    have "length (filter is_NpmView probes) \<le> 100"
      using len length_filter_le[of is_NpmView probes] by linarith
    with st have "length (filter is_NpmView (steps w'))
               \<le> length (filter is_NpmView (steps w)) + 100"
      by (simp add: is_NpmView_def[of "GetNextAvailableVersion n"])
    with Inr p show ?thesis
      by (simp add: getNextAvailableVersion_def Let_def)
  qed
next
  assume all: "\<forall>v. npm_view ev n v"
  let ?w0 = "record_step (GetNextAvailableVersion n) w"
  obtain v where v: "incrementVersion (Str version) t = Inr v"
    using incrementVersion_Str by blast
  obtain v' a' w' where p: "probe_loop ev n t v True 0 ?w0 = ((v', a'), w')"
    by (metis surj_pair)
  from probe_loop_exhausted[OF all, of 0 t v ?w0] p have a': "a' = 100" by simp
  from probe_loop_world[OF p] have m: "messages w' = messages w" by simp
  show "fst (getNextAvailableVersion ev n (Str version) t w) = incrementVersion (Str version) t"
    using v p a' by (simp add: getNextAvailableVersion_def Let_def)
  show "\<not> isl (fst (getNextAvailableVersion ev n (Str version) t w))"
    using v p a' by (simp add: getNextAvailableVersion_def Let_def)
  show "messages (snd (getNextAvailableVersion ev n (Str version) t w))
        = messages w @ [CouldNotCheckRegistry n]"
    using v p a' m by (simp add: getNextAvailableVersion_def Let_def)
qed

theorem getNextAvailableVersion_ceiling_witness:
  "fst (getNextAvailableVersion all_taken ''@fecommunity/reactpress-config'' (Str ''1.0.0'')
          ''patch'' \<lparr>files = (\<lambda>p. Missing), messages = [], steps = []\<rparr>) = Inr ''1.0.1''
   \<and> messages (snd (getNextAvailableVersion all_taken ''@fecommunity/reactpress-config''
          (Str ''1.0.0'') ''patch'' \<lparr>files = (\<lambda>p. Missing), messages = [], steps = []\<rparr>))
       = [CouldNotCheckRegistry ''@fecommunity/reactpress-config'']"
proof -
  have "incrementVersion (Str ''1.0.0'') ''patch'' = Inr ''1.0.1''" by code_simp
  moreover have "\<forall>v. npm_view all_taken ''@fecommunity/reactpress-config'' v"
    by (simp add: all_taken_def)
  ultimately show ?thesis
    using getNextAvailableVersion_ceiling[of all_taken "''@fecommunity/reactpress-config''"
        "Str ''1.0.0''" "''patch''" "\<lparr>files = (\<lambda>p. Missing), messages = [], steps = []\<rparr>" "''1.0.0''"]
    by simp
qed

section \<open>What \<open>JSON.stringify\<close> prints\<close>

lemma stringified_Undefined [simp]: "stringified v = Undefined \<longleftrightarrow> v = Undefined"
  by (cases v) (auto split: number.splits)

lemma map_of_filter_distinct:
  "distinct (map fst al) \<Longrightarrow>
     map_of (filter P al) k = (case map_of al k of Some v \<Rightarrow> if P (k, v) then Some v else None
                               | None \<Rightarrow> None)"
proof (induction al)
  case Nil
  then show ?case by simp
next
  case (Cons a al)
  obtain j x where a: "a = (j, x)" by (cases a)
  with Cons.prems have "map_of al j = None" by (simp add: map_of_eq_None_iff)
  with Cons a show ?case by (auto split: option.splits)
qed

lemma map_of_map_prod:
  "map_of (map (map_prod id f) al) k = map_option f (map_of al k)"
  by (induction al) auto

lemma get_property_stringified:
  assumes "pkg \<noteq> Num Infinity" "pkg \<noteq> Num NegativeInfinity"
  shows "get_property (stringified pkg) k
     = (case get_property pkg k of Inl e \<Rightarrow> Inl e | Inr v \<Rightarrow> Inr (stringified v))"
proof (cases pkg)
  case (Obj props)
  have "map_of (filter (\<lambda>(key, v). v \<noteq> Undefined)
                 (AList.clearjunk (map (map_prod id stringified) props))) k
        = (case map_of props k of Some v \<Rightarrow> if v \<noteq> Undefined then Some (stringified v) else None
           | None \<Rightarrow> None)"
    by (simp add: map_of_filter_distinct map_of_clearjunk map_of_map_prod split: option.splits)
  with Obj show ?thesis by (auto split: option.splits)
qed (use assms in \<open>auto split: number.splits\<close>)

lemma get_property_stringified_Inr:
  assumes "get_property (stringified pkg) k = Inr s"
  shows "\<exists>v. get_property pkg k = Inr v \<and> s = stringified v"
proof (cases "pkg = Num Infinity \<or> pkg = Num NegativeInfinity")
  case True
  with assms show ?thesis by auto
next
  case False
  with get_property_stringified[of pkg k] assms show ?thesis
    by (auto split: sum.splits)
qed

lemma set_clearjunk: "set (AList.clearjunk al) \<subseteq> set al"
proof (induction al rule: AList.clearjunk.induct)
  case 1
  then show ?case by simp
next
  case (2 p ps)
  have "set (AList.delete (fst p) ps) \<subseteq> set ps" by (auto simp: AList.delete_eq)
  with 2 show ?case by auto
qed

lemma stringified_idem: "stringified (stringified v) = stringified v"
proof (induction v)
  case (Arr xs)
  have "map (\<lambda>v. if v = Undefined then Null else v)
          (map stringified (map (\<lambda>v. if v = Undefined then Null else v) (map stringified xs)))
        = map (\<lambda>v. if v = Undefined then Null else v) (map stringified xs)"
    using Arr.IH by (induction xs) auto
  then show ?case by simp
next
  case (Obj props)
  let ?F = "filter (\<lambda>(key, v). v \<noteq> Undefined)
              (AList.clearjunk (map (map_prod id stringified) props))"
  have sub: "set ?F \<subseteq> set (map (map_prod id stringified) props)"
    using set_clearjunk[of "map (map_prod id stringified) props"] by auto
  have "map (map_prod id stringified) ?F = ?F"
  proof (rule map_idI)
    fix e assume "e \<in> set ?F"
    with sub obtain k v where "(k, v) \<in> set props" "e = (k, stringified v)" by auto
    with Obj.IH show "map_prod id stringified e = e" by (auto simp: snds.simps)
  qed
  moreover have "distinct (map fst ?F)"
    by (rule distinct_map_filter) simp
  ultimately show ?case by simp
qed (auto split: number.splits)

lemma list_all2_filter_rel:
  "list_all2 R xs ys \<Longrightarrow> (\<And>x y. R x y \<Longrightarrow> P x = Q y) \<Longrightarrow>
     list_all2 R (filter P xs) (filter Q ys)"
  by (induction rule: list_all2_induct) auto

lemma list_all2_clearjunk:
  assumes "\<And>x y. R x y \<Longrightarrow> fst y = fst x"
  shows "list_all2 R al bl \<Longrightarrow> list_all2 R (AList.clearjunk al) (AList.clearjunk bl)"
proof (induction al arbitrary: bl rule: AList.clearjunk.induct)
  case 1
  then show ?case by simp
next
  case (2 p ps)
  from "2.prems" obtain q qs where bl: "bl = q # qs" and pq: "R p q" and rest: "list_all2 R ps qs"
    by (cases bl) auto
  from pq have k: "fst q = fst p" by (rule assms)
  have "list_all2 R (AList.delete (fst p) ps) (AList.delete (fst p) qs)"
    unfolding AList.delete_eq
    using rest by (rule list_all2_filter_rel) (auto dest: assms simp: case_prod_beta)
  from "2.IH"[OF this] pq k bl show ?case by simp
qed


section \<open>Manifests: substituting and restoring workspace ranges\<close>

lemma find_package_iff: "find_package n \<noteq> None \<longleftrightarrow> n \<in> set (map name packages)"
  by (auto simp: find_package_def find_None_iff)

lemma find_package_None: "find_package n = None \<longleftrightarrow> n \<notin> set (map name packages)"
  using find_package_iff[of n] by blast

lemma get_set_property:
  "set_property pkg k x = Inr pkg' \<Longrightarrow> j \<noteq> k \<Longrightarrow> get_property pkg' j = get_property pkg j"
  by (cases pkg) (auto simp: update_conv')

lemma get_set_property_same:
  "set_property pkg k x = Inr pkg' \<Longrightarrow> get_property pkg k = Inr s \<Longrightarrow> truthy s \<Longrightarrow>
     get_property pkg' k = Inr x"
  by (cases pkg) (auto simp: update_conv')

lemma set_property_keys:
  "set_property pkg k x = Inr pkg' \<Longrightarrow> get_property pkg k = Inr s \<Longrightarrow> truthy s \<Longrightarrow>
     same_keys pkg pkg'"
proof (cases pkg)
  case (Obj props)
  assume a: "set_property pkg k x = Inr pkg'" "get_property pkg k = Inr s" "truthy s"
  with Obj obtain v where "map_of props k = Some v" by (auto split: option.splits)
  then have "k \<in> fst ` set props" by (rule map_of_SomeD[THEN rev_image_eqI]) simp
  with a Obj show ?thesis by (force simp: same_keys_def update_keys)
qed (auto simp: same_keys_def)

lemma same_keys_refl [simp]: "same_keys pkg pkg"
  by (cases pkg) (simp_all add: same_keys_def)

lemma same_keys_trans: "same_keys a b \<Longrightarrow> same_keys b c \<Longrightarrow> same_keys a c"
  by (cases a; cases b; cases c) (simp_all add: same_keys_def)

lemma get_property_Inl: "get_property pkg k = Inl e \<Longrightarrow> get_property pkg j = Inl e"
  by (cases pkg) auto

lemma set_property_ok: "get_property pkg j = Inr s \<Longrightarrow> \<exists>pkg'. set_property pkg k x = Inr pkg'"
  by (cases pkg) auto

lemma entry_frame_refl [simp]: "entry_frame pv e e"
  by (simp add: entry_frame_def)

lemma section_frame_refl [simp]: "section_frame pv s s"
  by (cases s) (simp_all add: section_frame_def list_all2_refl)

lemma find_package_Some: "find_package n = Some p \<Longrightarrow> n \<in> set (map name packages)"
  using find_package_iff[of n] by simp

lemma map_prod_update:
  "map (map_prod id f) (AList.update k x al) = AList.update k (f x) (map (map_prod id f) al)"
  by (induction al) auto

lemma filter_update_keys:
  "map_of al k = Some v \<Longrightarrow> P (k, v) \<Longrightarrow> P (k, y) \<Longrightarrow>
     map fst (filter P (AList.update k y al)) = map fst (filter P al)"
  by (induction al) auto

lemma set_property_stringified_keys:
  assumes "set_property pkg k x = Inr pkg'" "get_property pkg k = Inr s" "truthy s"
    "x \<noteq> Undefined"
  shows "same_keys (stringified pkg) (stringified pkg')"
proof (cases pkg)
  case (Obj props)
  let ?al = "AList.clearjunk (map (map_prod id stringified) props)"
  from assms(2,3) Obj have "map_of props k = Some s" by (auto split: option.splits)
  then have "map_of ?al k = Some (stringified s)"
    by (simp add: map_of_clearjunk map_of_map_prod)
  moreover from assms(3) have "stringified s \<noteq> Undefined" by auto
  moreover from assms(4) have "stringified x \<noteq> Undefined" by simp
  ultimately have "map fst (filter (\<lambda>(key, v). v \<noteq> Undefined) (AList.update k (stringified x) ?al))
      = map fst (filter (\<lambda>(key, v). v \<noteq> Undefined) ?al)"
    by (intro filter_update_keys[where v = "stringified s"]) simp_all
  with assms(1) Obj show ?thesis
    by (auto simp: same_keys_def map_prod_update clearjunk_update)
qed (use assms(1) in auto)

lemma fix_section_defined: "fix_section pv s = Inr s' \<Longrightarrow> truthy s \<Longrightarrow> s' \<noteq> Undefined"
  by (cases s) (auto simp: fix_section_def split: if_splits sum.splits)

lemma fix_depTypes_props:
  "distinct ds \<Longrightarrow> fix_depTypes pv ds pkg = Inr pkg' \<Longrightarrow>
     same_keys pkg pkg' \<and> same_keys (stringified pkg) (stringified pkg')
     \<and> (\<forall>k. k \<notin> set ds \<longrightarrow> get_property pkg' k = get_property pkg k)
     \<and> (\<forall>d \<in> set ds. \<exists>s s'. get_property pkg d = Inr s \<and> fix_section pv s = Inr s'
            \<and> get_property pkg' d = Inr s')"
proof (induction ds arbitrary: pkg)
  case Nil
  then show ?case by simp
next
  case (Cons d ds)
  from Cons.prems(2) obtain s s' pkg1 where
    s: "get_property pkg d = Inr s" and s': "fix_section pv s = Inr s'"
    and pkg1: "(if truthy s then set_property pkg d s' else Inr pkg) = Inr pkg1"
    and rest: "fix_depTypes pv ds pkg1 = Inr pkg'"
    by (auto split: sum.splits)
  have d1: "get_property pkg1 d = Inr s'"
  proof (cases "truthy s")
    case True
    with pkg1 s show ?thesis by (auto dest: get_set_property_same)
  next
    case False
    with pkg1 s s' show ?thesis by (simp add: fix_section_def)
  qed
  have other: "get_property pkg1 k = get_property pkg k" if "k \<noteq> d" for k
    using pkg1 that by (auto split: if_splits dest: get_set_property)
  have keys1: "same_keys pkg pkg1"
    using pkg1 s by (auto split: if_splits dest: set_property_keys)
  have skeys1: "same_keys (stringified pkg) (stringified pkg1)"
  proof (cases "truthy s")
    case True
    with pkg1 have "set_property pkg d s' = Inr pkg1" by simp
    from this s True fix_section_defined[OF s' True] show ?thesis
      by (rule set_property_stringified_keys)
  next
    case False
    with pkg1 show ?thesis by simp
  qed
  from Cons.prems(1) have dist: "distinct ds" and nd: "d \<notin> set ds" by auto
  from Cons.IH[OF dist rest] have
    k2: "same_keys pkg1 pkg'" and
    sk2: "same_keys (stringified pkg1) (stringified pkg')" and
    o2: "\<forall>k. k \<notin> set ds \<longrightarrow> get_property pkg' k = get_property pkg1 k" and
    d2: "\<forall>d \<in> set ds. \<exists>s s'. get_property pkg1 d = Inr s \<and> fix_section pv s = Inr s'
            \<and> get_property pkg' d = Inr s'"
    by auto
  have "same_keys pkg pkg'" using keys1 k2 by (rule same_keys_trans)
  moreover have "same_keys (stringified pkg) (stringified pkg')"
    using skeys1 sk2 by (rule same_keys_trans)
  moreover have "\<forall>k. k \<notin> set (d # ds) \<longrightarrow> get_property pkg' k = get_property pkg k"
    using o2 other by auto
  moreover have "\<forall>x \<in> set (d # ds). \<exists>s s'. get_property pkg x = Inr s
      \<and> fix_section pv s = Inr s' \<and> get_property pkg' x = Inr s'"
  proof
    fix x assume "x \<in> set (d # ds)"
    then consider "x = d" | "x \<in> set ds" "x \<noteq> d" using nd by auto
    then show "\<exists>s s'. get_property pkg x = Inr s \<and> fix_section pv s = Inr s'
        \<and> get_property pkg' x = Inr s'"
    proof cases
      case 1
      with s s' d1 o2 nd show ?thesis by auto
    next
      case 2
      with d2 other show ?thesis by auto
    qed
  qed
  ultimately show ?case by blast
qed

lemma distinct_depTypes [simp]: "distinct depTypes"
  by (simp add: depTypes_def)


text \<open>An entry with a string for its value, and what the substitution makes of it.\<close>

lemma fix_entry_Str:
  assumes "fix_entry pv e = Inr e'"
  shows "is_Str (snd e) \<and> snd e' \<noteq> Undefined \<and> fst e' = fst e
     \<and> (e' = e \<or> (substitutable pv e \<and> snd e' = version_of pv (fst e)))"
proof -
  obtain k x where e: "e = (k, x)" by (cases e)
  with assms obtain v where x: "x = Str v" by (cases x) (auto simp: fix_entry_def)
  have "truthy y \<Longrightarrow> y \<noteq> Undefined" for y by auto
  with assms e x show ?thesis
    by (auto simp: fix_entry_def is_Str_def substitutable_def
        split: if_splits option.splits dest: find_package_Some)
qed

lemma traverse_rel:
  "traverse f xs = Inr ys \<Longrightarrow> list_all2 (\<lambda>x y. f x = Inr y) xs ys"
proof (induction xs arbitrary: ys)
  case Nil
  then show ?case by simp
next
  case (Cons x xs)
  then show ?case by (auto split: sum.splits)
qed

lemma stringified_Str_entry: "is_Str (snd e) \<Longrightarrow> map_prod id stringified e = e"
  by (cases e; cases "snd e") (auto simp: is_Str_def)

text \<open>
  The entries of a section that is an object, as the file holds them before and after the
  substitution: each a string before, and kept or substituted.
\<close>

lemma fix_section_entries:
  assumes "fix_section pv (Obj deps) = Inr s'"
  shows "\<exists>A B. stringified (Obj deps) = Obj A \<and> stringified s' = Obj B
           \<and> distinct (map fst B)
           \<and> list_all2 (\<lambda>x y. is_Str (snd x) \<and> snd y \<noteq> Undefined \<and> entry_frame pv x y) A B"
proof -
  let ?g = "map_prod id stringified"
  let ?R = "\<lambda>x y. \<exists>e e'. fix_entry pv e = Inr e' \<and> x = ?g e \<and> y = ?g e'"
  let ?P = "\<lambda>(key, v). v \<noteq> Undefined"
  from assms obtain deps' where t: "traverse (fix_entry pv) deps = Inr deps'"
    and s': "s' = Obj deps'"
    by (auto simp: fix_section_def split: sum.splits)
  from traverse_rel[OF t] have "list_all2 (\<lambda>x y. ?R (?g x) (?g y)) deps deps'"
    by (rule list_all2_mono) blast
  then have "list_all2 ?R (map ?g deps) (map ?g deps')"
    by (simp add: list_all2_map1 list_all2_map2)
  then have "list_all2 ?R (AList.clearjunk (map ?g deps)) (AList.clearjunk (map ?g deps'))"
    by (rule list_all2_clearjunk[rotated]) (auto dest: fix_entry_Str)
  then have "list_all2 ?R (filter ?P (AList.clearjunk (map ?g deps)))
               (filter ?P (AList.clearjunk (map ?g deps')))"
  proof (rule list_all2_filter_rel)
    fix x y assume "?R x y"
    then obtain e e' where f: "fix_entry pv e = Inr e'" and x: "x = ?g e" and y: "y = ?g e'"
      by blast
    from fix_entry_Str[OF f] x y show "?P x = ?P y"
      by (cases e; cases e'; cases "snd e") (auto simp: is_Str_def)
  qed
  then have "list_all2 (\<lambda>x y. is_Str (snd x) \<and> snd y \<noteq> Undefined \<and> entry_frame pv x y)
               (filter ?P (AList.clearjunk (map ?g deps)))
               (filter ?P (AList.clearjunk (map ?g deps')))"
  proof (rule list_all2_mono)
    fix x y assume "?R x y"
    then obtain e e' where f: "fix_entry pv e = Inr e'" and x: "x = ?g e" and y: "y = ?g e'"
      by blast
    note p = fix_entry_Str[OF f]
    from p x have xe: "x = e" by (simp add: stringified_Str_entry)
    from p y have "snd y \<noteq> Undefined" by (cases e') auto
    moreover from p xe have "is_Str (snd x)" by simp
    moreover have "entry_frame pv x y"
    proof (cases "e' = e")
      case True
      with xe y p show ?thesis by (simp add: stringified_Str_entry entry_frame_def)
    next
      case False
      with p xe y show ?thesis by (cases e') (auto simp: entry_frame_def)
    qed
    ultimately show "is_Str (snd x) \<and> snd y \<noteq> Undefined \<and> entry_frame pv x y" by blast
  qed
  moreover have "distinct (map fst (filter ?P (AList.clearjunk (map ?g deps'))))"
    by (rule distinct_map_filter) simp
  ultimately show ?thesis using s' by auto
qed

lemma fix_section_other: "fix_section pv s = Inr s' \<Longrightarrow> \<forall>deps. s \<noteq> Obj deps \<Longrightarrow> s' = s"
  by (cases s) (auto simp: fix_section_def split: if_splits)

lemma fix_section_frame:
  assumes "fix_section pv s = Inr s'"
  shows "section_frame pv (stringified s) (stringified s')"
proof (cases "\<exists>deps. s = Obj deps")
  case True
  then obtain deps where s: "s = Obj deps" by blast
  from fix_section_entries[OF assms[unfolded s]] s show ?thesis
    by (auto simp: section_frame_def elim!: list_all2_mono)
next
  case False
  with fix_section_other[OF assms] show ?thesis by simp
qed

text \<open>A Number at the top of a manifest has no property to set.\<close>

lemma same_keys_Num: "same_keys a b \<Longrightarrow> b = Num x \<Longrightarrow> a = Num x"
  by (cases a) (auto simp: same_keys_def)

lemma get_property_written:
  "get_property pkg k = Inr s \<Longrightarrow> written pkg = Json (stringified pkg)"
  by (cases pkg) (auto simp: written_def)

lemma get_property_stringified_same:
  assumes "same_keys a b" "get_property b k = get_property a k"
  shows "get_property (stringified b) k = get_property (stringified a) k"
proof (cases "\<exists>x. b = Num x")
  case True
  with same_keys_Num[OF assms(1)] show ?thesis by auto
next
  case False
  then have b: "b \<noteq> Num Infinity" "b \<noteq> Num NegativeInfinity" by auto
  from False assms(1) have "a \<noteq> Num Infinity" "a \<noteq> Num NegativeInfinity"
    by (auto simp: same_keys_def)
  with b assms(2) show ?thesis by (simp add: get_property_stringified)
qed


lemma fixWorkspaceDependencies_cases:
  assumes "fixWorkspaceDependencies p pv w = (r, w')"
  shows "(files w' = files w \<and> (\<exists>e. r = Inl e))
       \<or> (\<exists>pkg pkg1. r = Inr () \<and> files w p = Json pkg \<and> fix_depTypes pv depTypes pkg = Inr pkg1
            \<and> files w' = (files w)(p := Json (stringified pkg1)))"
proof -
  have "written pkg1 = Json (stringified pkg1)" if "fix_depTypes pv depTypes pkg = Inr pkg1"
    for pkg pkg1
  proof -
    from fix_depTypes_props[OF distinct_depTypes that]
    obtain s where "get_property pkg1 ''dependencies'' = Inr s" by (auto simp: depTypes_def)
    then show ?thesis by (rule get_property_written)
  qed
  with assms show ?thesis
    by (auto simp: fixWorkspaceDependencies_def Let_def read_manifest_def
        split: manifest_file.splits sum.splits)
qed

text \<open>
  Claim C5, amended. \<open>fixWorkspaceDependencies\<close> writes no manifest but that of its
  package path, and none when it throws. It writes the manifest with \<open>JSON.stringify\<close>:
  the properties are those that \<open>JSON.stringify\<close> prints of the manifest read, by name
  and order; every property other than \<open>dependencies\<close>, \<open>devDependencies\<close> and
  \<open>peerDependencies\<close> has the value printed of its old value (the value itself, but
  \<open>null\<close> for an infinite Number); and in each of these three every entry keeps its
  name and either keeps its value or, being a workspace range of one of the three packages
  for which \<open>packageVersions\<close> holds a version, is set to that version.
\<close>

theorem fixWorkspaceDependencies_frame:
  assumes "fixWorkspaceDependencies p pv w = (r, w')"
  shows "(\<forall>q. q \<noteq> p \<longrightarrow> files w' q = files w q)
     \<and> (isl r \<longrightarrow> files w' p = files w p)
     \<and> (\<not> isl r \<longrightarrow>
          (\<exists>pkg pkg'. files w p = Json pkg \<and> files w' p = Json pkg'
             \<and> same_keys (stringified pkg) pkg'
             \<and> (\<forall>k. k \<notin> set depTypes \<longrightarrow>
                   get_property pkg' k = get_property (stringified pkg) k)
             \<and> (\<forall>d \<in> set depTypes. \<forall>s. get_property (stringified pkg) d = Inr s \<longrightarrow>
                   (\<exists>s'. get_property pkg' d = Inr s' \<and> section_frame pv s s'))))"
proof -
  from fixWorkspaceDependencies_cases[OF assms]
  consider (same) e where "files w' = files w" "r = Inl e"
    | (fixed) pkg pkg1 where "r = Inr ()" "files w p = Json pkg"
        "fix_depTypes pv depTypes pkg = Inr pkg1"
        "files w' = (files w)(p := Json (stringified pkg1))"
    by blast
  then show ?thesis
  proof cases
    case same
    then show ?thesis by auto
  next
    case fixed
    from fix_depTypes_props[OF distinct_depTypes fixed(3)] have
      keys: "same_keys pkg pkg1" and
      skeys: "same_keys (stringified pkg) (stringified pkg1)" and
      other: "\<forall>k. k \<notin> set depTypes \<longrightarrow> get_property pkg1 k = get_property pkg k" and
      deps: "\<forall>d \<in> set depTypes. \<exists>s s'. get_property pkg d = Inr s \<and> fix_section pv s = Inr s'
            \<and> get_property pkg1 d = Inr s'"
      by auto
    have o: "\<forall>k. k \<notin> set depTypes \<longrightarrow>
        get_property (stringified pkg1) k = get_property (stringified pkg) k"
      using other keys by (auto intro: get_property_stringified_same)
    have d: "\<forall>d \<in> set depTypes. \<forall>s. get_property (stringified pkg) d = Inr s \<longrightarrow>
            (\<exists>s'. get_property (stringified pkg1) d = Inr s' \<and> section_frame pv s s')"
    proof (intro ballI allI impI)
      fix d s assume d: "d \<in> set depTypes" and g: "get_property (stringified pkg) d = Inr s"
      from g have fin: "pkg \<noteq> Num Infinity" "pkg \<noteq> Num NegativeInfinity" by auto
      with keys have fin1: "pkg1 \<noteq> Num Infinity" "pkg1 \<noteq> Num NegativeInfinity"
        by (auto dest: same_keys_Num)
      from deps d obtain s0 s0' where s0: "get_property pkg d = Inr s0"
        and f: "fix_section pv s0 = Inr s0'" and s1: "get_property pkg1 d = Inr s0'"
        by blast
      from g s0 fin have "s = stringified s0" by (simp add: get_property_stringified)
      moreover from s1 fin1 have "get_property (stringified pkg1) d = Inr (stringified s0')"
        by (simp add: get_property_stringified)
      ultimately show "\<exists>s'. get_property (stringified pkg1) d = Inr s' \<and> section_frame pv s s'"
        using fix_section_frame[OF f] by simp
    qed
    from fixed(1,2,4) skeys o d show ?thesis by simp
  qed
qed

lemma fix_example:
  "fix_depTypes example_versions depTypes
     (Obj [(''name'', Str ''@fecommunity/reactpress-server''), (''version'', Str ''1.0.0''),
           (''dependencies'',
              Obj [(''@fecommunity/reactpress-config'', Str ''workspace:^1.0.0''),
                   (''lodash'', Str ''^4.17.21'')])])
   = Inr (Obj [(''name'', Str ''@fecommunity/reactpress-server''), (''version'', Str ''1.0.0''),
           (''dependencies'',
              Obj [(''@fecommunity/reactpress-config'', Str ''1.0.0''),
                   (''lodash'', Str ''^4.17.21'')])])"
  by (simp add: depTypes_def fix_section_def fix_entry_def find_package_def packages_def
      is_workspace_range_def version_of_def example_versions_def)

theorem fixWorkspaceDependencies_frame_witness:
  "files (snd (fixWorkspaceDependencies ''server'' example_versions (initial example_manifests)))
     ''config'' = example_manifests ''config''
   \<and> files (snd (fixWorkspaceDependencies ''server'' example_versions (initial example_manifests)))
     ''server''
     = Json (Obj [(''name'', Str ''@fecommunity/reactpress-server''), (''version'', Str ''1.0.0''),
           (''dependencies'',
              Obj [(''@fecommunity/reactpress-config'', Str ''1.0.0''),
                   (''lodash'', Str ''^4.17.21'')])])"
proof -
  let ?X = "fixWorkspaceDependencies ''server'' example_versions (initial example_manifests)"
  have "fixWorkspaceDependencies ''server'' example_versions (initial example_manifests)
        = (fst ?X, snd ?X)" by simp
  from fixWorkspaceDependencies_frame[OF this]
  have "files (snd ?X) ''config'' = files (initial example_manifests) ''config''" by simp
  moreover have "files (snd ?X) ''server''
     = Json (Obj [(''name'', Str ''@fecommunity/reactpress-server''), (''version'', Str ''1.0.0''),
           (''dependencies'',
              Obj [(''@fecommunity/reactpress-config'', Str ''1.0.0''),
                   (''lodash'', Str ''^4.17.21'')])])"
    by (simp add: fixWorkspaceDependencies_def Let_def read_manifest_def initial_def
        example_manifests_def fix_example written_def AList.delete_eq)
  ultimately show ?thesis by (simp add: initial_def)
qed

text \<open>
  Not every other property is unchanged: a manifest with the property \<open>"limit": 1e400\<close>,
  which parses to \<open>Infinity\<close>, and no workspace dependency at all is written back with
  \<open>"limit": null\<close>.
\<close>

theorem fixWorkspaceDependencies_counterexample:
  "get_property overflow_manifest ''limit'' = Inr (Num Infinity)
   \<and> files (snd (fixWorkspaceDependencies ''server'' example_versions
                   (initial (\<lambda>p. Json overflow_manifest)))) ''server''
     = Json (Obj [(''name'', Str ''@fecommunity/reactpress-server''), (''version'', Str ''1.0.0''),
                  (''limit'', Null),
                  (''dependencies'', Obj [(''lodash'', Str ''^4.17.21'')])])"
  by (simp add: fixWorkspaceDependencies_def Let_def read_manifest_def initial_def
      overflow_manifest_def depTypes_def fix_section_def fix_entry_def find_package_def
      packages_def is_workspace_range_def version_of_def example_versions_def written_def
      AList.delete_eq)
section \<open>The effects of the operations of the publish script\<close>

lemma snd_getCurrentVersion [simp]:
  "snd (getCurrentVersion p w) = record_step (GetCurrentVersion p) w"
  by (simp add: getCurrentVersion_def Let_def split: sum.splits)

lemma getCurrentVersion_world:
  "getCurrentVersion p w = (v, w') \<Longrightarrow> w' = record_step (GetCurrentVersion p) w"
  using snd_getCurrentVersion[of p w] by simp

lemma read_versions_world:
  "read_versions pkgs pv w = (pv', w') \<Longrightarrow>
     files w' = files w \<and> messages w' = messages w
     \<and> steps w' = steps w @ map (\<lambda>pkg. GetCurrentVersion (path pkg)) pkgs"
proof (induction pkgs arbitrary: pv w)
  case Nil
  then show ?case by simp
next
  case (Cons pkg pkgs)
  obtain v w1 where g: "getCurrentVersion (path pkg) w = (v, w1)" by (metis surj_pair)
  with Cons.prems have "read_versions pkgs (AList.update (name pkg) v pv) w1 = (pv', w')" by simp
  from Cons.IH[OF this] getCurrentVersion_world[OF g] show ?case by simp
qed

lemma getNextAvailableVersion_world:
  "getNextAvailableVersion ev n cur t w = (r, w') \<Longrightarrow>
     files w' = files w
     \<and> (\<exists>probes. steps w' = steps w @ GetNextAvailableVersion n # probes
                 \<and> list_all is_NpmView probes)
     \<and> (\<exists>ms. messages w' = messages w @ ms)"
proof -
  assume a: "getNextAvailableVersion ev n cur t w = (r, w')"
  let ?w0 = "record_step (GetNextAvailableVersion n) w"
  show ?thesis
  proof (cases "incrementVersion cur t")
    case (Inl e)
    with a show ?thesis by (auto simp: getNextAvailableVersion_def Let_def)
  next
    case (Inr v)
    obtain v' a' w1 where p: "probe_loop ev n t v True 0 ?w0 = ((v', a'), w1)"
      by (metis surj_pair)
    from probe_loop_world[OF p] obtain probes where
      "files w1 = files w" "messages w1 = messages w"
      "steps w1 = steps w @ GetNextAvailableVersion n # probes" "list_all is_NpmView probes"
      by auto
    with a Inr p show ?thesis
      by (auto simp: getNextAvailableVersion_def Let_def split: if_splits)
  qed
qed

lemma choose_version_world:
  "choose_version ev vt custom n cur w = (r, w') \<Longrightarrow>
     files w' = files w
     \<and> (if vt = ''custom'' then steps w' = steps w
         else \<exists>probes. steps w' = steps w @ GetNextAvailableVersion n # probes
                 \<and> list_all is_NpmView probes)
     \<and> (\<exists>ms. messages w' = messages w @ ms)"
  using getNextAvailableVersion_world[of ev n cur vt w r w']
  by (auto simp: choose_version_def split: if_splits)

lemma set_property_written:
  "set_property pkg k x = Inr pkg' \<Longrightarrow> written pkg' = Json (stringified pkg')"
  by (cases pkg) (auto simp: written_def)

lemma updateVersion_world:
  "updateVersion p nv w = (r, w') \<Longrightarrow>
     steps w' = steps w @ [UpdateVersion p] \<and> messages w' = messages w
     \<and> (files w' = files w
        \<or> (\<exists>pkg pkg'. files w p = Json pkg \<and> set_property pkg ''version'' (Str nv) = Inr pkg'
              \<and> files w' = (files w)(p := Json (stringified pkg'))))"
  by (auto simp: updateVersion_def Let_def read_manifest_def set_property_written
      split: manifest_file.splits sum.splits)

lemma updateVersion_Null:
  "files w p = Json Null \<Longrightarrow>
     updateVersion p nv w = (Inl TypeError, record_step (UpdateVersion p) w)"
  by (simp add: updateVersion_def Let_def read_manifest_def)

lemma fixWorkspaceDependencies_world:
  "fixWorkspaceDependencies p pv w = (r, w') \<Longrightarrow>
     steps w' = steps w @ [FixWorkspaceDependencies p] \<and> messages w' = messages w"
  by (auto simp: fixWorkspaceDependencies_def Let_def split: sum.splits)

lemma restoreWorkspaceDependencies_world:
  "restoreWorkspaceDependencies p w = (r, w') \<Longrightarrow>
     steps w' = steps w @ [RestoreWorkspaceDependencies p] \<and> messages w' = messages w"
  by (auto simp: restoreWorkspaceDependencies_def Let_def read_manifest_def
      split: manifest_file.splits sum.splits)

lemma restoreWorkspaceDependencies_Null:
  "files w p = Json Null \<Longrightarrow>
     restoreWorkspaceDependencies p w
       = (Inl TypeError, record_step (RestoreWorkspaceDependencies p) w)"
  by (simp add: restoreWorkspaceDependencies_def Let_def read_manifest_def depTypes_def)

lemma buildPackage_world:
  "buildPackage ev p n w = (r, w') \<Longrightarrow>
     steps w' = steps w @ [BuildPackage p] \<and> files w' = files w
     \<and> (\<exists>ms. messages w' = messages w @ ms)
     \<and> (isl r \<longleftrightarrow> build_command p \<noteq> None \<and> \<not> build_succeeds ev p)"
  by (auto simp: buildPackage_def Let_def split: option.splits if_splits)

lemma publishPackage_world:
  "publishPackage ev p n t w = (r, w') \<Longrightarrow>
     steps w' = steps w @ [PublishPackage p t] \<and> files w' = files w
     \<and> (\<exists>ms. messages w' = messages w @ ms)
     \<and> (isl r \<longleftrightarrow> \<not> publish_succeeds ev p t)"
  by (auto simp: publishPackage_def Let_def split: if_splits)

lemma try_publish_world:
  assumes "try_publish ev nb pkg nv t w = (r, w')"
  shows "(\<exists>mid. steps w' = steps w @ UpdateVersion (path pkg) # mid
            \<and> (mid = [] \<and> isl r
               \<or> \<not> nb \<and> mid = [BuildPackage (path pkg)] \<and> isl r
                  \<and> build_command (path pkg) \<noteq> None \<and> \<not> build_succeeds ev (path pkg)
               \<or> mid = (if nb then [] else [BuildPackage (path pkg)]) @ [PublishPackage (path pkg) t]
                  \<and> (nb \<or> build_command (path pkg) = None \<or> build_succeeds ev (path pkg))
                  \<and> (isl r \<longleftrightarrow> \<not> publish_succeeds ev (path pkg) t)))
       \<and> (\<exists>ms. messages w' = messages w @ ms)
       \<and> (files w' = files w
          \<or> (\<exists>m m'. files w (path pkg) = Json m \<and> set_property m ''version'' (Str nv) = Inr m'
                \<and> files w' = (files w)(path pkg := Json (stringified m'))))"
proof -
  obtain r1 w1 where u: "updateVersion (path pkg) nv w = (r1, w1)" by (metis surj_pair)
  note uw = updateVersion_world[OF u]
  show ?thesis
  proof (cases r1)
    case (Inl e)
    with assms u uw show ?thesis by (auto simp: try_publish_def)
  next
    case (Inr x)
    obtain r2 w2 where b: "(if \<not> nb then buildPackage ev (path pkg) (name pkg) w1 else (Inr (), w1))
                           = (r2, w2)" by (metis surj_pair)
    have bw: "files w2 = files w1 \<and> (\<exists>ms. messages w2 = messages w1 @ ms)
        \<and> steps w2 = steps w1 @ (if nb then [] else [BuildPackage (path pkg)])
        \<and> (isl r2 \<longleftrightarrow> \<not> nb \<and> build_command (path pkg) \<noteq> None \<and> \<not> build_succeeds ev (path pkg))"
      using b buildPackage_world[of ev "path pkg" "name pkg" w1 r2 w2]
      by (cases nb) auto
    show ?thesis
    proof (cases r2)
      case (Inl e)
      with assms u Inr b have "r = Inl e" "w' = w2" by (auto simp: try_publish_def)
      with Inl bw uw show ?thesis by (cases nb) auto
    next
      case Inr2: (Inr y)
      with assms u Inr b have p: "publishPackage ev (path pkg) (name pkg) t w2 = (r, w')"
        by (auto simp: try_publish_def)
      from publishPackage_world[OF p] Inr2 bw uw show ?thesis by (cases nb) auto
    qed
  qed
qed

lemma try_publish_Null:
  "files w (path pkg) = Json Null \<Longrightarrow>
     try_publish ev nb pkg nv t w = (Inl TypeError, record_step (UpdateVersion (path pkg)) w)"
  by (simp add: try_publish_def updateVersion_Null)

section \<open>Restoring after substituting\<close>

lemma set_property_defined: "set_property pkg k x = Inr pkg' \<Longrightarrow> \<exists>s. get_property pkg' j = Inr s"
  by (cases pkg) auto

lemma get_property_defined:
  "get_property pkg j = Inr s \<Longrightarrow> \<exists>s'. get_property pkg d = Inr s'"
  by (cases pkg) auto

lemma restore_depTypes_ok:
  "get_property pkg j = Inr s \<Longrightarrow> \<exists>pkg'. restore_depTypes ds pkg = Inr pkg'"
proof (induction ds arbitrary: pkg s)
  case Nil
  then show ?case by simp
next
  case (Cons d ds)
  from get_property_defined[OF Cons.prems] obtain sd where sd: "get_property pkg d = Inr sd"
    by blast
  from set_property_ok[OF Cons.prems] obtain pkg1 where
    p1: "set_property pkg d (restore_section sd) = Inr pkg1" by blast
  show ?case
  proof (cases "truthy sd")
    case True
    from set_property_defined[OF p1] obtain s1 where "get_property pkg1 j = Inr s1" by blast
    from Cons.IH[OF this] sd p1 True show ?thesis by simp
  next
    case False
    from Cons.IH[OF Cons.prems] sd False show ?thesis by simp
  qed
qed

lemma restore_depTypes_props:
  "distinct ds \<Longrightarrow> restore_depTypes ds pkg = Inr pkg' \<Longrightarrow>
     (\<forall>k. k \<notin> set ds \<longrightarrow> get_property pkg' k = get_property pkg k)
     \<and> (\<forall>d \<in> set ds. \<exists>s. get_property pkg d = Inr s
            \<and> get_property pkg' d = Inr (restore_section s))"
proof (induction ds arbitrary: pkg)
  case Nil
  then show ?case by simp
next
  case (Cons d ds)
  from Cons.prems(2) obtain s pkg1 where
    s: "get_property pkg d = Inr s"
    and pkg1: "(if truthy s then set_property pkg d (restore_section s) else Inr pkg) = Inr pkg1"
    and rest: "restore_depTypes ds pkg1 = Inr pkg'"
    by (auto split: sum.splits)
  have d1: "get_property pkg1 d = Inr (restore_section s)"
  proof (cases "truthy s")
    case True
    with pkg1 s show ?thesis by (auto dest: get_set_property_same)
  next
    case False
    with pkg1 s show ?thesis by (simp add: restore_section_def)
  qed
  have other: "get_property pkg1 k = get_property pkg k" if "k \<noteq> d" for k
    using pkg1 that by (auto split: if_splits dest: get_set_property)
  from Cons.prems(1) have dist: "distinct ds" and nd: "d \<notin> set ds" by auto
  from Cons.IH[OF dist rest] have
    o2: "\<forall>k. k \<notin> set ds \<longrightarrow> get_property pkg' k = get_property pkg1 k" and
    d2: "\<forall>d \<in> set ds. \<exists>s. get_property pkg1 d = Inr s
            \<and> get_property pkg' d = Inr (restore_section s)"
    by auto
  have "\<forall>k. k \<notin> set (d # ds) \<longrightarrow> get_property pkg' k = get_property pkg k"
    using o2 other by auto
  moreover have "\<forall>x \<in> set (d # ds). \<exists>s. get_property pkg x = Inr s
      \<and> get_property pkg' x = Inr (restore_section s)"
  proof
    fix x assume "x \<in> set (d # ds)"
    then consider "x = d" | "x \<in> set ds" "x \<noteq> d" using nd by auto
    then show "\<exists>s. get_property pkg x = Inr s \<and> get_property pkg' x = Inr (restore_section s)"
    proof cases
      case 1
      with s d1 o2 nd show ?thesis by auto
    next
      case 2
      with d2 other show ?thesis by auto
    qed
  qed
  ultimately show ?case by blast
qed

lemma list_all2_right: "list_all2 (\<lambda>x y. Q y) xs ys \<Longrightarrow> list_all Q ys"
  by (induction rule: list_all2_induct) auto

lemma stringified_Obj: "stringified s = Obj A \<Longrightarrow> \<exists>deps. s = Obj deps"
  by (cases s) (auto split: number.splits)

lemma stringified_not_infinite [simp]:
  "stringified v \<noteq> Num Infinity" "stringified v \<noteq> Num NegativeInfinity"
  "Num Infinity \<noteq> stringified v" "Num NegativeInfinity \<noteq> stringified v"
  by (cases v; auto split: number.splits)+

lemma restore_section_other: "\<forall>deps. s \<noteq> Obj deps \<Longrightarrow> restore_section s = s"
  by (cases s) (auto simp: restore_section_def)

lemma section_restored_other: "\<forall>deps. s \<noteq> Obj deps \<Longrightarrow> section_restored s s"
  by (cases s) (auto simp: section_restored_def)

text \<open>
  A section as the file holds it before the substitution and after the restoring that
  follows it.
\<close>

lemma fix_section_restored:
  assumes "fix_section pv s = Inr s'"
  shows "section_restored (stringified s) (stringified (restore_section (stringified s')))"
proof (cases "\<exists>deps. s = Obj deps")
  case True
  then obtain deps where s: "s = Obj deps" by blast
  let ?FR = "\<lambda>x y. is_Str (snd x) \<and> snd y \<noteq> Undefined \<and> entry_frame pv x y"
  let ?h = "\<lambda>y. map_prod id stringified (restore_entry y)"
  let ?P = "\<lambda>(key, v). v \<noteq> Undefined"
  from fix_section_entries[OF assms[unfolded s]] obtain A B where
    A: "stringified (Obj deps) = Obj A" and B: "stringified s' = Obj B"
    and dist: "distinct (map fst B)" and rel: "list_all2 ?FR A B"
    by blast
  have key: "fst (?h y) = fst y" for y
    by (cases y) (auto simp: restore_entry_def split: option.splits)
  have "list_all2 (\<lambda>x y. snd y \<noteq> Undefined) A B"
    using rel by (rule list_all2_mono) simp
  then have defined: "list_all (\<lambda>y. snd y \<noteq> Undefined) B" by (rule list_all2_right)
  have kk: "map fst (map ?h B) = map fst B"
    using key by (induction B) simp_all
  have "distinct (map fst (map ?h B))" unfolding kk by (rule dist)
  then have cj: "AList.clearjunk (map ?h B) = map ?h B" by (rule distinct_clearjunk_id)
  have "?P (?h y)" if "snd y \<noteq> Undefined" for y
    using that by (cases y) (auto simp: restore_entry_def split: option.splits)
  with defined have fl: "filter ?P (map ?h B) = map ?h B"
    by (auto simp: list_all_iff filter_id_conv)
  have "restore_section (Obj B) = Obj (map restore_entry B)"
    by (simp add: restore_section_def)
  then have final: "stringified (restore_section (stringified s')) = Obj (map ?h B)"
    using B cj fl by (simp add: comp_def)
  have "list_all2 (\<lambda>x y. entry_restored x (?h y)) A B"
    using rel
  proof (rule list_all2_mono)
    fix x y assume fr: "?FR x y"
    obtain k v where x: "x = (k, Str v)"
      using fr by (cases x; cases "snd x") (auto simp: is_Str_def)
    from fr x have fy: "fst y = k" by (simp add: entry_frame_def)
    show "entry_restored x (?h y)"
    proof (cases "find_package k")
      case None
      then have "k \<notin> set (map name packages)" by (simp add: find_package_None)
      with fr x have "snd y = Str v" by (auto simp: entry_frame_def substitutable_def)
      with fy have "y = (k, Str v)" by (cases y) simp
      with None x \<open>k \<notin> set (map name packages)\<close> show ?thesis
        by (simp add: entry_restored_def restore_entry_def)
    next
      case (Some p)
      then have "k \<in> set (map name packages)" by (rule find_package_Some)
      with Some x fy show ?thesis
        by (cases y) (simp add: entry_restored_def restore_entry_def)
    qed
  qed
  then have "list_all2 entry_restored A (map ?h B)" by (simp add: list_all2_map2)
  with A final s show ?thesis by (simp add: section_restored_def)
next
  case False
  with fix_section_other[OF assms] have s': "s' = s" by simp
  from False have no: "\<forall>A. stringified s \<noteq> Obj A" by (auto dest: stringified_Obj)
  then have "restore_section (stringified s) = stringified s" by (rule restore_section_other)
  with s' no show ?thesis by (simp add: stringified_idem section_restored_other)
qed

lemma set_property_Num: "set_property a k x = Inr b \<Longrightarrow> b = Num y \<Longrightarrow> a = Num y"
  by (cases a) auto

lemma restore_depTypes_Num: "restore_depTypes ds a = Inr b \<Longrightarrow> b = Num y \<Longrightarrow> a = Num y"
proof (induction ds arbitrary: a)
  case Nil
  then show ?case by simp
next
  case (Cons d ds)
  from Cons.prems(1) obtain s a1 where
    a1: "(if truthy s then set_property a d (restore_section s) else Inr a) = Inr a1"
    and rest: "restore_depTypes ds a1 = Inr b"
    by (auto split: sum.splits)
  from Cons.IH[OF rest Cons.prems(2)] a1 show ?case
    by (auto split: if_splits dest: set_property_Num)
qed

text \<open>
  The manifest of a package before its block and after it: substituted and written, then
  perhaps given its new version and written, then restored and written.
\<close>

lemma fix_update_restore:
  assumes fx: "fix_depTypes pv depTypes pkg = Inr pkg1"
    and upd: "X = stringified pkg1
        \<or> (\<exists>X0. set_property (stringified pkg1) ''version'' x = Inr X0 \<and> X = stringified X0)"
    and res: "restore_depTypes depTypes X = Inr m3"
  shows "manifest_kept (Json pkg) (Json (stringified m3))"
proof -
  note fp = fix_depTypes_props[OF distinct_depTypes fx]
  note rp = restore_depTypes_props[OF distinct_depTypes res]
  have X: "X \<noteq> Num Infinity" "X \<noteq> Num NegativeInfinity" using upd by auto
  have m3: "m3 \<noteq> Num Infinity" "m3 \<noteq> Num NegativeInfinity"
    using restore_depTypes_Num[OF res] X by auto
  have sec: "\<exists>s'. get_property (stringified m3) d = Inr s' \<and> section_restored s s'"
    if d: "d \<in> set depTypes" and g: "get_property (stringified pkg) d = Inr s" for d s
  proof -
    from d have dv: "d \<noteq> ''version''" by (auto simp: depTypes_def)
    from g have fin: "pkg \<noteq> Num Infinity" "pkg \<noteq> Num NegativeInfinity" by auto
    with fp have fin1: "pkg1 \<noteq> Num Infinity" "pkg1 \<noteq> Num NegativeInfinity"
      by (auto dest: same_keys_Num)
    from fp d obtain s0 s0' where s0: "get_property pkg d = Inr s0"
      and f: "fix_section pv s0 = Inr s0'" and s1: "get_property pkg1 d = Inr s0'"
      by blast
    from g s0 fin have s: "s = stringified s0" by (simp add: get_property_stringified)
    from s1 fin1 have gA: "get_property (stringified pkg1) d = Inr (stringified s0')"
      by (simp add: get_property_stringified)
    have gX: "get_property X d = Inr (stringified s0')"
      using upd
    proof
      assume "X = stringified pkg1"
      with gA show ?thesis by simp
    next
      assume "\<exists>X0. set_property (stringified pkg1) ''version'' x = Inr X0 \<and> X = stringified X0"
      then obtain X0 where X0: "set_property (stringified pkg1) ''version'' x = Inr X0"
        and XX: "X = stringified X0" by blast
      from get_set_property[OF X0 dv] gA have g0: "get_property X0 d = Inr (stringified s0')"
        by simp
      have "X0 \<noteq> Num Infinity" "X0 \<noteq> Num NegativeInfinity"
        using set_property_Num[OF X0] by auto
      with g0 XX show ?thesis by (simp add: get_property_stringified stringified_idem)
    qed
    from rp d gX have "get_property m3 d = Inr (restore_section (stringified s0'))"
      by fastforce
    with m3 have "get_property (stringified m3) d
        = Inr (stringified (restore_section (stringified s0')))"
      by (simp add: get_property_stringified)
    with fix_section_restored[OF f] s show ?thesis by simp
  qed
  have "list_all
          (\<lambda>d. case get_property (stringified pkg) d of
                 Inr s \<Rightarrow>
                   (case get_property (stringified m3) d of
                      Inr s' \<Rightarrow> section_restored s s'
                    | Inl e \<Rightarrow> False)
               | Inl e \<Rightarrow> True)
          depTypes"
    unfolding list_all_iff
  proof
    fix d assume "d \<in> set depTypes"
    from sec[OF this] show "case get_property (stringified pkg) d of
                 Inr s \<Rightarrow>
                   (case get_property (stringified m3) d of
                      Inr s' \<Rightarrow> section_restored s s'
                    | Inl e \<Rightarrow> False)
               | Inl e \<Rightarrow> True"
      by (cases "get_property (stringified pkg) d") auto
  qed
  then show ?thesis by (simp add: manifest_kept_def stringified_idem)
qed

lemma restoreWorkspaceDependencies_ok:
  "files w p = Json pkg \<Longrightarrow> restore_depTypes depTypes pkg = Inr pkg' \<Longrightarrow>
     restoreWorkspaceDependencies p w
       = (Inr (), write_manifest p pkg' (record_step (RestoreWorkspaceDependencies p) w))"
  by (simp add: restoreWorkspaceDependencies_def Let_def read_manifest_def)

lemma restore_depTypes_written:
  assumes "restore_depTypes depTypes pkg = Inr pkg'"
  shows "written pkg' = Json (stringified pkg')"
proof -
  from restore_depTypes_props[OF distinct_depTypes assms]
  obtain s where "get_property pkg' ''dependencies'' = Inr s" by (auto simp: depTypes_def)
  then show ?thesis by (rule get_property_written)
qed

text \<open>A manifest that is an infinite Number is written as \<open>null\<close> and stays so.\<close>

lemma manifest_kept_Null:
  assumes "stringified pkg = Null"
  shows "manifest_kept (Json pkg) (Json Null)"
  using assms by (simp add: manifest_kept_def list_all_iff)

lemma get_property_stringified_defined:
  assumes "get_property (stringified a) j = Inr s" "set_property (stringified a) k x = Inr b"
  shows "\<exists>s'. get_property (stringified b) d = Inr s'"
proof -
  have "b \<noteq> Num Infinity" "b \<noteq> Num NegativeInfinity"
    using set_property_Num[OF assms(2)] by auto
  moreover from set_property_defined[OF assms(2)] obtain t where "get_property b d = Inr t"
    by blast
  ultimately show ?thesis by (simp add: get_property_stringified)
qed

text \<open>
  The block of a package: what it leaves in the manifests, which steps it takes and when
  it throws.
\<close>

lemma publish_with_restore_world:
  assumes run: "publish_with_restore ev nb pkg nv t pv w = (r, w')"
  shows "(\<forall>q. q \<noteq> path pkg \<longrightarrow> files w' q = files w q)
     \<and> manifest_kept (files w (path pkg)) (files w' (path pkg))
     \<and> (\<exists>ms. messages w' = messages w @ ms)
     \<and> (\<exists>new. steps w' = steps w @ new
          \<and> (new = [FixWorkspaceDependencies (path pkg)] \<and> isl r
             \<or> (\<exists>mid. new = FixWorkspaceDependencies (path pkg) # UpdateVersion (path pkg) # mid
                        @ [RestoreWorkspaceDependencies (path pkg)]
                  \<and> (mid = [] \<and> isl r
                     \<or> \<not> nb \<and> mid = [BuildPackage (path pkg)] \<and> isl r
                     \<or> mid = (if nb then [] else [BuildPackage (path pkg)])
                               @ [PublishPackage (path pkg) t]
                        \<and> (nb \<or> build_command (path pkg) = None \<or> build_succeeds ev (path pkg))
                        \<and> (isl r \<longleftrightarrow> \<not> publish_succeeds ev (path pkg) t)))))"
proof -
  let ?p = "path pkg"
  obtain r1 w1 where f: "fixWorkspaceDependencies ?p pv w = (r1, w1)" by (metis surj_pair)
  note fw = fixWorkspaceDependencies_world[OF f]
  from fixWorkspaceDependencies_cases[OF f]
  consider (failed) e where "files w1 = files w" "r1 = Inl e"
    | (fixed) m m1 where "r1 = Inr ()" "files w ?p = Json m" "fix_depTypes pv depTypes m = Inr m1"
        "files w1 = (files w)(?p := Json (stringified m1))"
    by blast
  then show ?thesis
  proof cases
    case failed
    with run f have "r = Inl e" "w' = w1" by (auto simp: publish_with_restore_def)
    with failed fw show ?thesis by (auto simp: manifest_kept_def)
  next
    case fixed
    note fp = fix_depTypes_props[OF distinct_depTypes fixed(3)]
    from fp obtain s1 where s1: "get_property m1 ''dependencies'' = Inr s1"
      by (auto simp: depTypes_def)
    from fixed(4) have f1: "files w1 ?p = Json (stringified m1)" by simp
    show ?thesis
    proof (cases "stringified m1 = Null")
      case True
      with s1 obtain x where m1: "m1 = Num x" by (cases m1) (auto split: number.splits)
      with fp have "m = m1" by (auto dest: same_keys_Num)
      with True have kept: "manifest_kept (Json m) (Json Null)" by (simp add: manifest_kept_Null)
      let ?w2 = "record_step (UpdateVersion ?p) w1"
      let ?w3 = "record_step (RestoreWorkspaceDependencies ?p) ?w2"
      from f1 True have t: "try_publish ev nb pkg nv t w1 = (Inl TypeError, ?w2)"
        by (simp add: try_publish_Null)
      from f1 True have "files ?w2 ?p = Json Null" by simp
      then have "restoreWorkspaceDependencies ?p ?w2 = (Inl TypeError, ?w3)"
        by (rule restoreWorkspaceDependencies_Null)
      with run f fixed(1) t have r: "r = Inl TypeError" and w': "w' = ?w3"
        by (auto simp: publish_with_restore_def)
      have files: "files w' = (files w)(?p := Json Null)" using w' fixed(4) True by simp
      define mid :: "step list" where "mid = []"
      have st: "steps w' = steps w @ (FixWorkspaceDependencies ?p # UpdateVersion ?p # mid
                        @ [RestoreWorkspaceDependencies ?p])"
        using w' fw by (simp add: mid_def)
      have midc: "mid = [] \<and> isl r" using r by (simp add: mid_def)
      have "\<exists>new. steps w' = steps w @ new
          \<and> (new = [FixWorkspaceDependencies ?p] \<and> isl r
             \<or> (\<exists>mid. new = FixWorkspaceDependencies ?p # UpdateVersion ?p # mid
                        @ [RestoreWorkspaceDependencies ?p]
                  \<and> (mid = [] \<and> isl r
                     \<or> \<not> nb \<and> mid = [BuildPackage ?p] \<and> isl r
                     \<or> mid = (if nb then [] else [BuildPackage ?p]) @ [PublishPackage ?p t]
                        \<and> (nb \<or> build_command ?p = None \<or> build_succeeds ev ?p)
                        \<and> (isl r \<longleftrightarrow> \<not> publish_succeeds ev ?p t))))"
        using st midc by blast
      moreover have "messages w' = messages w @ []" using w' fw by simp
      ultimately show ?thesis using files kept fixed(2) by auto
    next
      case False
      have gA: "\<exists>s. get_property (stringified m1) ''dependencies'' = Inr s"
        using s1 False by (cases m1) (auto split: number.splits)
      obtain r2 w2 where t: "try_publish ev nb pkg nv t w1 = (r2, w2)" by (metis surj_pair)
      note tw = try_publish_world[OF t]
      from tw fixed(4) obtain mX where
        fX: "files w2 = (files w)(?p := Json mX)"
        and mX: "mX = stringified m1
            \<or> (\<exists>X0. set_property (stringified m1) ''version'' (Str nv) = Inr X0
                  \<and> mX = stringified X0)"
        by auto
      from mX gA obtain sX where "get_property mX ''dependencies'' = Inr sX"
        by (auto dest: get_property_stringified_defined)
      from restore_depTypes_ok[OF this] obtain m3 where
        m3: "restore_depTypes depTypes mX = Inr m3" by blast
      from fX have "files w2 ?p = Json mX" by simp
      from restoreWorkspaceDependencies_ok[OF this m3]
      have res: "restoreWorkspaceDependencies ?p w2
         = (Inr (), write_manifest ?p m3 (record_step (RestoreWorkspaceDependencies ?p) w2))" .
      with run f fixed(1) t have r: "r = r2"
        and w': "w' = write_manifest ?p m3 (record_step (RestoreWorkspaceDependencies ?p) w2)"
        by (auto simp: publish_with_restore_def)
      have files: "files w' = (files w)(?p := Json (stringified m3))"
        using w' fX restore_depTypes_written[OF m3] by simp
      have 1: "\<forall>q. q \<noteq> ?p \<longrightarrow> files w' q = files w q" using files by simp
      have 2: "manifest_kept (files w ?p) (files w' ?p)"
        using fix_update_restore[OF fixed(3) mX m3] files fixed(2) by simp
      have 3: "\<exists>ms. messages w' = messages w @ ms" using w' tw fw by auto
      from tw obtain mid where mid: "steps w2 = steps w1 @ UpdateVersion ?p # mid"
        and midc: "mid = [] \<and> isl r2
                 \<or> \<not> nb \<and> mid = [BuildPackage ?p] \<and> isl r2
                    \<and> build_command ?p \<noteq> None \<and> \<not> build_succeeds ev ?p
                 \<or> mid = (if nb then [] else [BuildPackage ?p]) @ [PublishPackage ?p t]
                    \<and> (nb \<or> build_command ?p = None \<or> build_succeeds ev ?p)
                    \<and> (isl r2 \<longleftrightarrow> \<not> publish_succeeds ev ?p t)"
        by blast
      have st: "steps w' = steps w @ (FixWorkspaceDependencies ?p # UpdateVersion ?p # mid
                          @ [RestoreWorkspaceDependencies ?p])"
        using w' mid fw by simp
      have 4: "\<exists>new. steps w' = steps w @ new
            \<and> (new = [FixWorkspaceDependencies ?p] \<and> isl r
               \<or> (\<exists>mid. new = FixWorkspaceDependencies ?p # UpdateVersion ?p # mid
                          @ [RestoreWorkspaceDependencies ?p]
                    \<and> (mid = [] \<and> isl r
                       \<or> \<not> nb \<and> mid = [BuildPackage ?p] \<and> isl r
                       \<or> mid = (if nb then [] else [BuildPackage ?p]) @ [PublishPackage ?p t]
                          \<and> (nb \<or> build_command ?p = None \<or> build_succeeds ev ?p)
                          \<and> (isl r \<longleftrightarrow> \<not> publish_succeeds ev ?p t))))"
        using st midc r by blast
      from 1 2 3 4 show ?thesis by blast
    qed
  qed
qed

section \<open>The order of the steps\<close>

lemma quiet_not_pipeline: "is_quiet s \<Longrightarrow> \<not> pipeline_step q s"
  by (cases s) (simp_all add: is_quiet_def pipeline_step_def)

lemma quiet_not_failed: "is_quiet s \<Longrightarrow> \<not> failed ev s"
  by (cases s) (simp_all add: is_quiet_def failed_def)

lemma filter_quiet [simp]: "list_all is_quiet ys \<Longrightarrow> filter (pipeline_step q) ys = []"
  by (auto simp: list_all_iff filter_empty_conv dest: quiet_not_pipeline)

lemma failed_quiet [simp]: "list_all is_quiet ys \<Longrightarrow> \<not> list_ex (failed ev) ys"
  by (auto simp: list_all_iff list_ex_iff dest: quiet_not_failed)

lemma quiet_mem: "list_all is_quiet ys \<Longrightarrow> s \<in> set ys \<Longrightarrow> is_quiet s"
  by (simp add: list_all_iff)

lemma NpmView_quiet: "list_all is_NpmView ys \<Longrightarrow> list_all is_quiet ys"
  by (induction ys) (auto simp: is_NpmView_def is_quiet_def split: step.splits)

lemma block_filter_other: "block_steps nb p t new \<Longrightarrow> q \<noteq> p \<Longrightarrow> filter (pipeline_step q) new = []"
  by (auto simp: block_steps_def pipeline_step_def)

lemma block_filter_self: "block_steps nb p t new \<Longrightarrow> filter (pipeline_step p) new = new"
  by (auto simp: block_steps_def pipeline_step_def)

lemma block_publish:
  "block_steps nb p t new \<Longrightarrow> PublishPackage q t' \<in> set new \<Longrightarrow>
     q = p \<and> t' = t \<and> new = expected_pipeline nb p t"
  by (auto simp: block_steps_def expected_pipeline_def split: if_splits)

lemma block_fix:
  "block_steps nb p t new \<Longrightarrow>
     \<exists>rest. new = FixWorkspaceDependencies p # rest
       \<and> (\<forall>q. FixWorkspaceDependencies q \<notin> set rest)"
  by (auto simp: block_steps_def)

lemma publish_is_pipeline: "pipeline_step q (PublishPackage q t)"
  by (simp add: pipeline_step_def)

lemma ordered_append_quiet:
  assumes "ordered_pipelines nb xs" "list_all is_quiet ys"
  shows "ordered_pipelines nb (xs @ ys)"
  unfolding ordered_pipelines_def
proof (intro allI impI)
  fix q t assume "PublishPackage q t \<in> set (xs @ ys)"
  moreover have "PublishPackage q t \<notin> set ys"
    using quiet_mem[OF assms(2), of "PublishPackage q t"] by (auto simp: is_quiet_def)
  ultimately have "PublishPackage q t \<in> set xs" by simp
  with assms show "filter (pipeline_step q) (xs @ ys) = expected_pipeline nb q t"
    by (simp add: ordered_pipelines_def)
qed

lemma ordered_append_block:
  assumes "ordered_pipelines nb xs" "filter (pipeline_step p) xs = []" "block_steps nb p t new"
  shows "ordered_pipelines nb (xs @ new)"
  unfolding ordered_pipelines_def
proof (intro allI impI)
  fix q t' assume "PublishPackage q t' \<in> set (xs @ new)"
  then consider "PublishPackage q t' \<in> set xs" | "PublishPackage q t' \<in> set new" by auto
  then show "filter (pipeline_step q) (xs @ new) = expected_pipeline nb q t'"
  proof cases
    case 1
    then have "PublishPackage q t' \<in> set (filter (pipeline_step q) xs)"
      by (simp add: publish_is_pipeline)
    then have "filter (pipeline_step q) xs \<noteq> []" by force
    with assms(2) have "q \<noteq> p" by blast
    with 1 assms(1,3) show ?thesis
      by (simp add: ordered_pipelines_def block_filter_other)
  next
    case 2
    from block_publish[OF assms(3) 2] assms(2,3) show ?thesis
      by (simp add: block_filter_self)
  qed
qed

lemma version_known_mono: "version_known vt q xs \<Longrightarrow> version_known vt q (xs @ ys)"
  by (auto simp: version_known_def intro: subseq_rev_drop_many list_emb_append2 split: if_splits)

lemma fix_preceded_mono: "fix_preceded vt q xs \<Longrightarrow> fix_preceded vt q (xs @ ys)"
  by (auto simp: fix_preceded_def intro: list_emb_append2 split: if_splits)

lemma preceded_append_quiet:
  assumes "fixes_preceded vt xs" "list_all is_quiet ys"
  shows "fixes_preceded vt (xs @ ys)"
  unfolding fixes_preceded_def
proof (intro allI impI)
  fix q assume "FixWorkspaceDependencies q \<in> set (xs @ ys)"
  moreover have "FixWorkspaceDependencies q \<notin> set ys"
    using quiet_mem[OF assms(2), of "FixWorkspaceDependencies q"] by (auto simp: is_quiet_def)
  ultimately have "FixWorkspaceDependencies q \<in> set xs" by simp
  with assms(1) show "fix_preceded vt q (xs @ ys)"
    by (simp add: fixes_preceded_def fix_preceded_mono)
qed

lemma subseq_snoc: "subseq as xs \<Longrightarrow> subseq (as @ [b]) (xs @ b # rest)"
  by (rule list_emb_append_mono) simp_all

lemma preceded_append_block:
  assumes "fixes_preceded vt xs" "version_known vt p xs" "block_steps nb p t new"
  shows "fixes_preceded vt (xs @ new)"
  unfolding fixes_preceded_def
proof (intro allI impI)
  from block_fix[OF assms(3)] obtain rest where
    new: "new = FixWorkspaceDependencies p # rest"
    and rest: "\<forall>q. FixWorkspaceDependencies q \<notin> set rest" by blast
  fix q assume "FixWorkspaceDependencies q \<in> set (xs @ new)"
  with new rest consider "FixWorkspaceDependencies q \<in> set xs" | "q = p" by auto
  then show "fix_preceded vt q (xs @ new)"
  proof cases
    case 1
    with assms(1) show ?thesis by (simp add: fixes_preceded_def fix_preceded_mono)
  next
    case 2
    show ?thesis
    proof (cases "vt = ''custom''")
      case True
      with assms(2) have "subseq [GetCurrentVersion p] xs" by (simp add: version_known_def)
      from subseq_snoc[OF this, of "FixWorkspaceDependencies p" rest] True 2 new
      show ?thesis by (simp add: fix_preceded_def)
    next
      case False
      with assms(2) obtain n where
        "subseq [GetCurrentVersion p, GetNextAvailableVersion n] xs"
        by (auto simp: version_known_def)
      from subseq_snoc[OF this, of "FixWorkspaceDependencies p" rest] False 2 new
      show ?thesis by (auto simp: fix_preceded_def)
    qed
  qed
qed

lemma version_known_intro:
  assumes "GetCurrentVersion q \<in> set xs"
    and "vt \<noteq> ''custom'' \<Longrightarrow> \<exists>n probes. ys = GetNextAvailableVersion n # probes"
  shows "version_known vt q (xs @ ys)"
proof -
  from assms(1) have 1: "subseq [GetCurrentVersion q] xs" by (simp add: subseq_singleton_left)
  show ?thesis
  proof (cases "vt = ''custom''")
    case True
    with 1 show ?thesis by (simp add: version_known_def list_emb_prefix)
  next
    case False
    from assms(2)[OF False] obtain n probes where ys: "ys = GetNextAvailableVersion n # probes"
      by blast
    from subseq_snoc[OF 1, of "GetNextAvailableVersion n" probes] ys False
    show ?thesis by (auto simp: version_known_def)
  qed
qed

lemma failed_block:
  "block_steps nb p t new \<Longrightarrow> list_ex (failed ev) new \<Longrightarrow>
     (build_command p \<noteq> None \<and> \<not> build_succeeds ev p \<and> BuildPackage p \<in> set new)
     \<or> (\<not> publish_succeeds ev p t \<and> PublishPackage p t \<in> set new)"
  by (auto simp: block_steps_def failed_def split: if_splits)

section \<open>Runs of the publish script\<close>

lemma entry_restored_trans:
  "entry_restored a b \<Longrightarrow> entry_restored b c \<Longrightarrow> entry_restored a c"
  by (auto simp: entry_restored_def)

lemma section_restored_trans:
  assumes "section_restored a b" "section_restored b c"
  shows "section_restored a c"
proof (cases a)
  case (Obj deps)
  with assms(1) obtain deps' where b: "b = Obj deps'" and 1: "list_all2 entry_restored deps deps'"
    by (cases b) (auto simp: section_restored_def)
  with assms(2) obtain deps'' where c: "c = Obj deps''"
    and 2: "list_all2 entry_restored deps' deps''"
    by (cases c) (auto simp: section_restored_def)
  from entry_restored_trans 1 2 have "list_all2 entry_restored deps deps''"
    by (rule list_all2_trans)
  with Obj c show ?thesis by (simp add: section_restored_def)
qed (use assms in \<open>auto simp: section_restored_def\<close>)

lemma manifest_kept_refl [simp]: "manifest_kept f f"
  by (simp add: manifest_kept_def)

lemma manifest_kept_Json:
  "manifest_kept (Json pa) (Json pb) \<longleftrightarrow>
     pb = pa
     \<or> (stringified pb = pb
        \<and> (\<forall>d \<in> set depTypes. \<forall>s. get_property (stringified pa) d = Inr s \<longrightarrow>
              (\<exists>s'. get_property pb d = Inr s' \<and> section_restored s s')))"
proof -
  have "(case get_property (stringified pa) d of
           Inr s \<Rightarrow> (case get_property pb d of Inr s' \<Rightarrow> section_restored s s' | Inl e \<Rightarrow> False)
         | Inl e \<Rightarrow> True)
        \<longleftrightarrow> (\<forall>s. get_property (stringified pa) d = Inr s \<longrightarrow>
              (\<exists>s'. get_property pb d = Inr s' \<and> section_restored s s'))" for d
    by (cases "get_property (stringified pa) d"; cases "get_property pb d") auto
  then show ?thesis by (simp add: manifest_kept_def list_all_iff)
qed

lemma manifest_kept_cases:
  assumes "manifest_kept a b" "b \<noteq> a"
  obtains pa pb where "a = Json pa" "b = Json pb"
  using assms by (cases a; cases b) (auto simp: manifest_kept_def)

lemma manifest_kept_trans:
  assumes ab: "manifest_kept a b" and bc: "manifest_kept b c"
  shows "manifest_kept a c"
proof (cases "b = a \<or> c = b")
  case True
  with ab bc show ?thesis by auto
next
  case False
  from False have ne: "b \<noteq> a" "c \<noteq> b" by auto
  from manifest_kept_cases[OF ab ne(1)] obtain pa pb where a: "a = Json pa" and b: "b = Json pb"
    by blast
  from manifest_kept_cases[OF bc ne(2)] obtain pc where c: "c = Json pc"
    by blast
  from ab a b False have sb: "stringified pb = pb"
    and 1: "\<forall>d \<in> set depTypes. \<forall>s. get_property (stringified pa) d = Inr s \<longrightarrow>
              (\<exists>s'. get_property pb d = Inr s' \<and> section_restored s s')"
    by (auto simp: manifest_kept_Json)
  from bc b c False have sc: "stringified pc = pc"
    and 2: "\<forall>d \<in> set depTypes. \<forall>s. get_property (stringified pb) d = Inr s \<longrightarrow>
              (\<exists>s'. get_property pc d = Inr s' \<and> section_restored s s')"
    by (auto simp: manifest_kept_Json)
  have "\<exists>s''. get_property pc d = Inr s'' \<and> section_restored s s''"
    if d: "d \<in> set depTypes" and g: "get_property (stringified pa) d = Inr s" for d s
  proof -
    from 1 d g obtain s' where s': "get_property pb d = Inr s'" and r1: "section_restored s s'"
      by blast
    from 2 d s' sb obtain s'' where "get_property pc d = Inr s''" and "section_restored s' s''"
      by auto
    with r1 show ?thesis by (blast intro: section_restored_trans)
  qed
  with a c sc show ?thesis by (auto simp: manifest_kept_Json)
qed

lemma deps_kept_same: "files w' = files w \<Longrightarrow> deps_kept w w'"
  by (simp add: deps_kept_def)

lemma deps_kept_trans: "deps_kept a b \<Longrightarrow> deps_kept b c \<Longrightarrow> deps_kept a c"
  unfolding deps_kept_def by (blast intro: manifest_kept_trans)

lemma fine_quiet: "steps_fine nb vt xs \<Longrightarrow> list_all is_quiet ys \<Longrightarrow> steps_fine nb vt (xs @ ys)"
  by (simp add: steps_fine_def ordered_append_quiet preceded_append_quiet)

lemma fine_block:
  "steps_fine nb vt xs \<Longrightarrow> filter (pipeline_step p) xs = [] \<Longrightarrow> version_known vt p xs \<Longrightarrow>
     block_steps nb p t new \<Longrightarrow> steps_fine nb vt (xs @ new)"
  by (simp add: steps_fine_def ordered_append_block preceded_append_block)

lemma fine_Nil [simp]: "steps_fine nb vt []"
  by (simp add: steps_fine_def ordered_pipelines_def fixes_preceded_def)

lemma publish_with_restore_summary:
  assumes "publish_with_restore ev nb pkg nv t pv w = (r, w')"
  shows "deps_kept w w' \<and> (\<exists>ms. messages w' = messages w @ ms)
     \<and> (\<exists>new. steps w' = steps w @ new \<and> block_steps nb (path pkg) t new
           \<and> (list_ex (failed ev) new \<longrightarrow> isl r))"
proof -
  note W = publish_with_restore_world[OF assms]
  have 1: "deps_kept w w'"
    unfolding deps_kept_def
  proof
    fix q
    from W show "manifest_kept (files w q) (files w' q)"
      by (cases "q = path pkg") auto
  qed
  from W obtain new where new: "steps w' = steps w @ new"
    and shape: "new = [FixWorkspaceDependencies (path pkg)] \<and> isl r
             \<or> (\<exists>mid. new = FixWorkspaceDependencies (path pkg) # UpdateVersion (path pkg) # mid
                        @ [RestoreWorkspaceDependencies (path pkg)]
                  \<and> (mid = [] \<and> isl r
                     \<or> \<not> nb \<and> mid = [BuildPackage (path pkg)] \<and> isl r
                     \<or> mid = (if nb then [] else [BuildPackage (path pkg)])
                               @ [PublishPackage (path pkg) t]
                        \<and> (nb \<or> build_command (path pkg) = None \<or> build_succeeds ev (path pkg))
                        \<and> (isl r \<longleftrightarrow> \<not> publish_succeeds ev (path pkg) t)))"
    by blast
  from shape have b: "block_steps nb (path pkg) t new"
    unfolding block_steps_def by blast
  from shape have f: "list_ex (failed ev) new \<longrightarrow> isl r"
    by (auto simp: failed_def split: if_splits)
  from 1 W new b f show ?thesis by blast
qed

text \<open>The loop of the prerelease branch.\<close>

lemma publish_prerelease_summary:
  assumes "publish_prerelease ev nb an pkgs pv w = (r, w')"
    and "distinct (map path pkgs)"
    and "\<forall>q \<in> set (map path pkgs). filter (pipeline_step q) (steps w) = []"
    and "steps_fine nb (versionType an) (steps w)"
    and "\<not> list_ex (failed ev) (steps w)"
  shows "deps_kept w w' \<and> (\<exists>ms. messages w' = messages w @ ms)
     \<and> steps_fine nb (versionType an) (steps w')
     \<and> (list_ex (failed ev) (steps w') \<longrightarrow> isl r)"
  using assms
proof (induction pkgs arbitrary: pv w)
  case Nil
  then show ?case by (auto simp: deps_kept_same)
next
  case (Cons pkg pkgs)
  let ?p = "path pkg" and ?vt = "versionType an"
  note run = Cons.prems(1)
  from Cons.prems(2) have dist: "distinct (map path pkgs)" and np: "?p \<notin> set (map path pkgs)"
    by auto
  show ?case
  proof (cases "dir_exists ev ?p")
    case False
    let ?w1 = "record_message (DirectoryNotFound (name pkg)) w"
    from run False have "publish_prerelease ev nb an pkgs pv ?w1 = (r, w')" by simp
    from Cons.IH[OF this dist] Cons.prems(3,4,5)
    have "deps_kept ?w1 w' \<and> (\<exists>ms. messages w' = messages ?w1 @ ms)
        \<and> steps_fine nb ?vt (steps w') \<and> (list_ex (failed ev) (steps w') \<longrightarrow> isl r)"
      by simp
    then show ?thesis by (auto simp: deps_kept_def)
  next
    case True
    obtain cur w1 where g: "getCurrentVersion ?p w = (cur, w1)" by (metis surj_pair)
    from getCurrentVersion_world[OF g] have w1: "w1 = record_step (GetCurrentVersion ?p) w" .
    obtain rc w2 where c: "choose_version ev ?vt (customVersionFor an (name pkg)) (name pkg) cur w1
                           = (rc, w2)" by (metis surj_pair)
    from choose_version_world[OF c] obtain cv ms2 where
      f2: "files w2 = files w" and s2: "steps w2 = steps w1 @ cv"
      and cvq: "list_all is_quiet cv"
      and cvn: "?vt \<noteq> ''custom'' \<Longrightarrow> \<exists>n probes. cv = GetNextAvailableVersion n # probes"
      and m2: "messages w2 = messages w @ ms2"
      using w1 by (cases "?vt = ''custom''") (auto simp: NpmView_quiet is_quiet_def)
    have q2: "list_all is_quiet (GetCurrentVersion ?p # cv)" using cvq by (simp add: is_quiet_def)
    have st2: "steps w2 = steps w @ GetCurrentVersion ?p # cv" using s2 w1 by simp
    have fine2: "steps_fine nb ?vt (steps w2)"
      unfolding st2 using Cons.prems(4) q2 by (rule fine_quiet)
    have nf2: "\<not> list_ex (failed ev) (steps w2)"
      unfolding st2 using Cons.prems(5) failed_quiet[OF q2, of ev] by simp
    have fil2: "filter (pipeline_step q) (steps w2) = filter (pipeline_step q) (steps w)" for q
      unfolding st2 using filter_quiet[OF q2, of q] by simp
    show ?thesis
    proof (cases rc)
      case (Inl e)
      with run True g c have "r = Inl e" "w' = w2" by auto
      with f2 m2 fine2 show ?thesis by (auto simp: deps_kept_same)
    next
      case (Inr nv)
      let ?pv = "AList.update (name pkg) (Str nv) pv"
      obtain rp w3 where p: "publish_with_restore ev nb pkg nv (tag an) ?pv w2 = (rp, w3)"
        by (metis surj_pair)
      from publish_with_restore_summary[OF p] obtain new ms3 where
        d3: "deps_kept w2 w3" and m3: "messages w3 = messages w2 @ ms3"
        and s3: "steps w3 = steps w2 @ new" and blk: "block_steps nb ?p (tag an) new"
        and fl: "list_ex (failed ev) new \<longrightarrow> isl rp"
        by blast
      have vk: "version_known ?vt ?p (steps w2)"
        unfolding s2 using w1 cvn by (intro version_known_intro) auto
      have e2: "filter (pipeline_step ?p) (steps w2) = []"
        using fil2[of ?p] Cons.prems(3) by simp
      have fine3: "steps_fine nb ?vt (steps w3)"
        unfolding s3 using fine2 e2 vk blk by (rule fine_block)
      have d03: "deps_kept w w3" using d3 f2 by (simp add: deps_kept_def)
      show ?thesis
      proof (cases rp)
        case Inl2: (Inl e)
        with run True g c Inr p have "r = Inl e" "w' = w3" by auto
        with d03 m3 m2 fine3 show ?thesis by auto
      next
        case Inr2: (Inr u)
        with run True g c Inr p have rest: "publish_prerelease ev nb an pkgs ?pv w3 = (r, w')"
          by auto
        from fl Inr2 have "\<not> list_ex (failed ev) new" by auto
        with nf2 s3 have nf3: "\<not> list_ex (failed ev) (steps w3)" by simp
        have e3: "\<forall>q \<in> set (map path pkgs). filter (pipeline_step q) (steps w3) = []"
        proof
          fix q assume q: "q \<in> set (map path pkgs)"
          with np have "q \<noteq> ?p" by blast
          from block_filter_other[OF blk this] fil2[of q] Cons.prems(3) q s3
          show "filter (pipeline_step q) (steps w3) = []" by auto
        qed
        from Cons.IH[OF rest dist e3 fine3 nf3] d03 m3 m2 show ?thesis
          by (auto intro: deps_kept_trans)
      qed
    qed
  qed
qed

text \<open>The loop of the branch that publishes all packages.\<close>

lemma publish_all_loop_summary:
  assumes "publish_all_loop ev nb base t pkgs pv w = (r, w')"
    and "distinct (map path pkgs)"
    and "\<forall>q \<in> set (map path pkgs). filter (pipeline_step q) (steps w) = []"
    and "\<forall>q \<in> set (map path pkgs). version_known vt q (steps w)"
    and "steps_fine nb vt (steps w)"
    and "\<not> list_ex (failed ev) (steps w)"
  shows "deps_kept w w' \<and> (\<exists>ms. messages w' = messages w @ ms)
     \<and> steps_fine nb vt (steps w')
     \<and> (list_ex (failed ev) (steps w') \<longrightarrow> isl r)"
  using assms
proof (induction pkgs arbitrary: pv w)
  case Nil
  then show ?case by (auto simp: deps_kept_same)
next
  case (Cons pkg pkgs)
  let ?p = "path pkg"
  note run = Cons.prems(1)
  from Cons.prems(2) have dist: "distinct (map path pkgs)" and np: "?p \<notin> set (map path pkgs)"
    by auto
  show ?case
  proof (cases "dir_exists ev ?p")
    case False
    let ?w1 = "record_message (DirectoryNotFound (name pkg)) w"
    from run False have "publish_all_loop ev nb base t pkgs pv ?w1 = (r, w')" by simp
    from Cons.IH[OF this dist] Cons.prems(3,4,5,6)
    have "deps_kept ?w1 w' \<and> (\<exists>ms. messages w' = messages ?w1 @ ms)
        \<and> steps_fine nb vt (steps w') \<and> (list_ex (failed ev) (steps w') \<longrightarrow> isl r)"
      by simp
    then show ?thesis by (auto simp: deps_kept_def)
  next
    case True
    let ?pv = "AList.update (name pkg) (Str base) pv"
    obtain rp w3 where p: "publish_with_restore ev nb pkg base t ?pv w = (rp, w3)"
      by (metis surj_pair)
    from publish_with_restore_summary[OF p] obtain new ms3 where
      d3: "deps_kept w w3" and m3: "messages w3 = messages w @ ms3"
      and s3: "steps w3 = steps w @ new" and blk: "block_steps nb ?p t new"
      and fl: "list_ex (failed ev) new \<longrightarrow> isl rp"
      by blast
    have vk: "version_known vt ?p (steps w)" using Cons.prems(4) by simp
    have e2: "filter (pipeline_step ?p) (steps w) = []" using Cons.prems(3) by simp
    have fine3: "steps_fine nb vt (steps w3)"
      unfolding s3 using Cons.prems(5) e2 vk blk by (rule fine_block)
    show ?thesis
    proof (cases rp)
      case (Inl e)
      with run True p have "r = Inl e" "w' = w3" by auto
      with d3 m3 fine3 show ?thesis by auto
    next
      case (Inr u)
      with run True p have rest: "publish_all_loop ev nb base t pkgs ?pv w3 = (r, w')"
        by auto
      from fl Inr have "\<not> list_ex (failed ev) new" by auto
      with Cons.prems(6) s3 have nf3: "\<not> list_ex (failed ev) (steps w3)" by simp
      have e3: "\<forall>q \<in> set (map path pkgs). filter (pipeline_step q) (steps w3) = []"
      proof
        fix q assume q: "q \<in> set (map path pkgs)"
        with np have "q \<noteq> ?p" by blast
        from block_filter_other[OF blk this] Cons.prems(3) q s3
        show "filter (pipeline_step q) (steps w3) = []" by auto
      qed
      have v3: "\<forall>q \<in> set (map path pkgs). version_known vt q (steps w3)"
        unfolding s3 using Cons.prems(4) by (auto intro: version_known_mono)
      from Cons.IH[OF rest dist e3 v3 fine3 nf3] d3 m3 show ?thesis
        by (auto intro: deps_kept_trans)
    qed
  qed
qed

lemma is_build_Build [simp]: "is_build (BuildPackage p)"
  by (simp add: is_build_def)

lemma build_all_summary:
  "build_all ev pkgs w = (r, w') \<Longrightarrow>
     files w' = files w \<and> (\<exists>ms. messages w' = messages w @ ms)
     \<and> (\<exists>new. steps w' = steps w @ new \<and> list_all is_build new
           \<and> (list_ex (failed ev) new \<longrightarrow> isl r))"
proof (induction pkgs arbitrary: w)
  case Nil
  then show ?case by simp
next
  case (Cons pkg pkgs)
  show ?case
  proof (cases "dir_exists ev (path pkg)")
    case False
    with Cons.prems have
      "build_all ev pkgs (record_message (DirectoryNotFound (name pkg)) w) = (r, w')" by simp
    from Cons.IH[OF this] show ?thesis by auto
  next
    case True
    obtain rb w1 where b: "buildPackage ev (path pkg) (name pkg) w = (rb, w1)"
      by (metis surj_pair)
    note bw = buildPackage_world[OF b]
    show ?thesis
    proof (cases rb)
      case (Inl e)
      with Cons.prems True b have "r = Inl e" "w' = w1" by auto
      with bw show ?thesis by auto
    next
      case (Inr u)
      with Cons.prems True b have "build_all ev pkgs w1 = (r, w')" by auto
      from Cons.IH[OF this] obtain new ms where
        "files w' = files w1" "messages w' = messages w1 @ ms" "steps w' = steps w1 @ new"
        "list_all is_build new" "list_ex (failed ev) new \<longrightarrow> isl r" by blast
      moreover from bw Inr have "\<not> failed ev (BuildPackage (path pkg))"
        by (auto simp: failed_def)
      ultimately show ?thesis using bw by auto
    qed
  qed
qed

lemma fine_builds:
  assumes "list_all is_quiet xs" "list_all is_build ys"
  shows "steps_fine nb vt (xs @ ys)"
proof -
  have "PublishPackage q t \<notin> set (xs @ ys)" "FixWorkspaceDependencies q \<notin> set (xs @ ys)" for q t
    using assms by (auto simp: list_all_iff is_quiet_def is_build_def)
  then show ?thesis
    by (simp add: steps_fine_def ordered_pipelines_def fixes_preceded_def)
qed

lemma quiet_facts:
  assumes "list_all is_quiet xs"
  shows "steps_fine nb vt xs" "\<not> list_ex (failed ev) xs" "filter (pipeline_step q) xs = []"
  using fine_quiet[OF fine_Nil assms, of nb vt] failed_quiet[OF assms] filter_quiet[OF assms]
  by simp_all

lemma distinct_paths [simp]: "distinct (map path packages)"
  by (simp add: packages_def)

lemma reads_quiet [simp]: "list_all is_quiet (map (\<lambda>pkg. GetCurrentVersion (path pkg)) pkgs)"
  by (induction pkgs) (simp_all add: is_quiet_def)

text \<open>The branches of \<open>main\<close>, entered when only versions have been read.\<close>

lemma publish_one_summary:
  assumes run: "publish_one ev nb an w = (r, w')" and quiet: "list_all is_quiet (steps w)"
  shows "deps_kept w w' \<and> steps_fine nb (versionType an) (steps w')
     \<and> (list_ex (failed ev) (steps w') \<longrightarrow> isl r)"
proof -
  let ?sel = "selectedPackage an" and ?vt = "versionType an"
  let ?p = "path ?sel"
  obtain cur w1 where g: "getCurrentVersion ?p w = (cur, w1)" by (metis surj_pair)
  from getCurrentVersion_world[OF g] have w1: "w1 = record_step (GetCurrentVersion ?p) w" .
  obtain rc w2 where c: "choose_version ev ?vt (customVersion an) (name ?sel) cur w1 = (rc, w2)"
    by (metis surj_pair)
  from choose_version_world[OF c] obtain cv where
    f2: "files w2 = files w" and s2: "steps w2 = steps w1 @ cv"
    and cvq: "list_all is_quiet cv"
    and cvn: "?vt \<noteq> ''custom'' \<Longrightarrow> \<exists>n probes. cv = GetNextAvailableVersion n # probes"
    using w1 by (cases "?vt = ''custom''") (auto simp: NpmView_quiet is_quiet_def)
  have q2: "list_all is_quiet (steps w2)" using s2 w1 quiet cvq by (simp add: is_quiet_def)
  have vk2: "version_known ?vt ?p (steps w2)"
    unfolding s2 using w1 cvn by (intro version_known_intro) auto
  show ?thesis
  proof (cases rc)
    case (Inl e)
    with run g c have "r = Inl e" "w' = w2" by (auto simp: publish_one_def)
    with f2 quiet_facts[OF q2] show ?thesis by (auto simp: deps_kept_same)
  next
    case (Inr nv)
    obtain pv w3 where rv: "read_versions packages [] w2 = (pv, w3)" by (metis surj_pair)
    from read_versions_world[OF rv] have f3: "files w3 = files w2"
      and s3: "steps w3 = steps w2 @ map (\<lambda>pkg. GetCurrentVersion (path pkg)) packages"
      by auto
    have q3: "list_all is_quiet (steps w3)" using s3 q2 by simp
    have vk3: "version_known ?vt ?p (steps w3)"
      unfolding s3 using vk2 by (rule version_known_mono)
    let ?t = "if ?vt = ''beta'' then ''beta'' else ''latest''"
    from run g c Inr rv have p: "publish_with_restore ev nb ?sel nv ?t
        (AList.update (name ?sel) (Str nv) pv) w3 = (r, w')"
      by (auto simp: publish_one_def)
    from publish_with_restore_summary[OF p] obtain new where
      d4: "deps_kept w3 w'" and s4: "steps w' = steps w3 @ new"
      and blk: "block_steps nb ?p ?t new" and fl: "list_ex (failed ev) new \<longrightarrow> isl r"
      by blast
    have "steps_fine nb ?vt (steps w')"
      unfolding s4 using quiet_facts(1,3)[OF q3] vk3 blk by (intro fine_block)
    moreover have "deps_kept w w'" using d4 f3 f2 by (simp add: deps_kept_def)
    moreover have "list_ex (failed ev) (steps w') \<longrightarrow> isl r"
      using fl s4 quiet_facts(2)[OF q3, of ev] by simp
    ultimately show ?thesis by blast
  qed
qed

lemma publish_all_summary:
  assumes run: "publish_all ev nb an w = (r, w')" and quiet: "list_all is_quiet (steps w)"
  shows "deps_kept w w' \<and> steps_fine nb (versionType an) (steps w')
     \<and> (list_ex (failed ev) (steps w') \<longrightarrow> isl r)"
proof -
  let ?vt = "versionType an"
  obtain isMaster w1 where b: "(case git_branch ev of
               Some branch \<Rightarrow> (branch = ''master'' \<or> branch = ''main'', w)
             | None \<Rightarrow> (False, record_message UnableToDetermineBranch w)) = (isMaster, w1)"
    by (cases "git_branch ev") auto
  then have f1: "files w1 = files w" and s1: "steps w1 = steps w"
    by (auto split: option.splits)
  obtain pv w2 where rv: "read_versions packages [] w1 = (pv, w2)" by (metis surj_pair)
  from read_versions_world[OF rv] have f2: "files w2 = files w"
    and s2: "steps w2 = steps w @ map (\<lambda>pkg. GetCurrentVersion (path pkg)) packages"
    using f1 s1 by auto
  obtain rc w3 where c: "choose_version ev ?vt (customVersion an) (name (hd packages))
                     (version_of pv (name (hd packages))) w2 = (rc, w3)"
    by (metis surj_pair)
  from choose_version_world[OF c] obtain cv where
    f3: "files w3 = files w" and s3: "steps w3 = steps w2 @ cv"
    and cvq: "list_all is_quiet cv"
    and cvn: "?vt \<noteq> ''custom'' \<Longrightarrow> \<exists>n probes. cv = GetNextAvailableVersion n # probes"
    using f2 by (cases "?vt = ''custom''") (auto simp: NpmView_quiet is_quiet_def)
  have q3: "list_all is_quiet (steps w3)" using s3 s2 quiet cvq by simp
  have vk3: "\<forall>q \<in> set (map path packages). version_known ?vt q (steps w3)"
  proof
    fix q assume "q \<in> set (map path packages)"
    then have "GetCurrentVersion q \<in> set (steps w2)" unfolding s2 by auto
    then show "version_known ?vt q (steps w3)"
      unfolding s3 using cvn by (intro version_known_intro) auto
  qed
  show ?thesis
  proof (cases rc)
    case (Inl e)
    with run b rv c have "r = Inl e" "w' = w3" by (auto simp: publish_all_def)
    with f3 quiet_facts[OF q3] show ?thesis by (auto simp: deps_kept_same)
  next
    case (Inr base)
    show ?thesis
    proof (cases "confirm an")
      case False
      with run b rv c Inr have "r = Inr ()" "w' = record_message OperationCancelled w3"
        by (auto simp: publish_all_def)
      with f3 quiet_facts[OF q3] show ?thesis by (auto simp: deps_kept_same)
    next
      case True
      let ?t = "if ?vt = ''beta'' \<and> \<not> isMaster then ''beta'' else ''latest''"
      obtain rl w4 where l: "publish_all_loop ev nb base ?t packages pv w3 = (rl, w4)"
        by (metis surj_pair)
      have e3: "\<forall>q \<in> set (map path packages). filter (pipeline_step q) (steps w3) = []"
        using quiet_facts(3)[OF q3] by simp
      from publish_all_loop_summary[OF l distinct_paths e3 vk3 quiet_facts(1,2)[OF q3]]
      have d4: "deps_kept w3 w4" and fine4: "steps_fine nb ?vt (steps w4)"
        and fl: "list_ex (failed ev) (steps w4) \<longrightarrow> isl rl" by auto
      have d04: "deps_kept w w4" using d4 f3 by (simp add: deps_kept_def)
      show ?thesis
      proof (cases rl)
        case Inl2: (Inl e)
        with run b rv c Inr True l have "r = Inl e" "w' = w4" by (auto simp: publish_all_def)
        with d04 fine4 show ?thesis by auto
      next
        case Inr2: (Inr u)
        with run b rv c Inr True l have r: "r = Inr ()"
          and w': "w' = (if isMaster then createGitHubRelease ev (''v'' @ base) w4 else w4)"
          by (auto simp: publish_all_def)
        from fl Inr2 have nf4: "\<not> list_ex (failed ev) (steps w4)" by auto
        show ?thesis
        proof (cases isMaster)
          case False
          with w' d04 fine4 nf4 show ?thesis by auto
        next
          case True
          with w' have fw: "files w' = files w4"
            and sw: "steps w' = steps w4 @ [CreateGitHubRelease (''v'' @ base)]"
            by (auto simp: createGitHubRelease_def Let_def)
          have ql: "list_all is_quiet [CreateGitHubRelease (''v'' @ base)]"
            by (simp add: is_quiet_def)
          have "steps_fine nb ?vt (steps w')"
            unfolding sw using fine4 ql by (rule fine_quiet)
          moreover have "\<not> list_ex (failed ev) (steps w')"
            unfolding sw using nf4 by (simp add: failed_def)
          moreover have "deps_kept w w'" using d04 fw by (simp add: deps_kept_def)
          ultimately show ?thesis by blast
        qed
      qed
    qed
  qed
qed

lemma main_summary:
  assumes run: "main ev nb an (initial fs) = (r, w')"
  shows "deps_kept (initial fs) w' \<and> steps_fine nb (versionType an) (steps w')
     \<and> (list_ex (failed ev) (steps w') \<longrightarrow> isl r)"
proof -
  let ?w = "initial fs"
  obtain ok w1 where ce: "checkEnvironment ev ?w = (ok, w1)" by (metis surj_pair)
  then have f1: "files w1 = files ?w" and s1: "steps w1 = []"
    by (auto simp: checkEnvironment_def initial_def split: if_splits)
  show ?thesis
  proof (cases ok)
    case False
    with run ce have "w' = w1" by (simp add: main_def)
    with f1 s1 show ?thesis by (simp add: deps_kept_same)
  next
    case True
    obtain shown w2 where rv: "read_versions packages [] w1 = (shown, w2)" by (metis surj_pair)
    from read_versions_world[OF rv] have f2: "files w2 = files ?w"
      and s2: "steps w2 = map (\<lambda>pkg. GetCurrentVersion (path pkg)) packages"
      using f1 s1 by auto
    have q2: "list_all is_quiet (steps w2)" unfolding s2 by simp
    let ?branch = "if action an = ''cancel'' then (Inr (), record_message OperationCancelled w2)
                      else if action an = ''build-all'' then build_all ev packages w2
                      else if action an = ''publish-one'' then publish_one ev nb an w2
                      else if action an = ''publish-prerelease'' then
                        (case read_versions packages [] w2 of
                           (packageVersions, w3) \<Rightarrow>
                             publish_prerelease ev nb an packages packageVersions w3)
                      else if action an = ''publish-all'' then publish_all ev nb an w2
                      else (Inr (), w2)"
    obtain rb wb where br: "?branch = (rb, wb)" by (cases ?branch) blast
    have sum: "deps_kept w2 wb \<and> steps_fine nb (versionType an) (steps wb)
        \<and> (list_ex (failed ev) (steps wb) \<longrightarrow> isl rb)"
    proof -
      consider (cancel) "action an = ''cancel''"
        | (build) "action an = ''build-all''"
        | (one) "action an = ''publish-one''"
        | (pre) "action an = ''publish-prerelease''"
        | (all) "action an = ''publish-all''"
        | (none) "action an \<notin> {''cancel'', ''build-all'', ''publish-one'',
                               ''publish-prerelease'', ''publish-all''}"
        by auto
      then show ?thesis
      proof cases
        case cancel
        with br have "rb = Inr ()" "wb = record_message OperationCancelled w2" by auto
        with quiet_facts[OF q2] show ?thesis by (auto simp: deps_kept_same)
      next
        case build
        with br have "build_all ev packages w2 = (rb, wb)" by auto
        from build_all_summary[OF this] obtain new where
          "files wb = files w2" "steps wb = steps w2 @ new" "list_all is_build new"
          "list_ex (failed ev) new \<longrightarrow> isl rb" by blast
        with q2 fine_builds[OF q2, of new nb "versionType an"] quiet_facts(2)[OF q2, of ev]
        show ?thesis by (auto simp: deps_kept_same)
      next
        case one
        with br have "publish_one ev nb an w2 = (rb, wb)" by auto
        from publish_one_summary[OF this q2] show ?thesis .
      next
        case pre
        obtain pv w3 where rv3: "read_versions packages [] w2 = (pv, w3)" by (metis surj_pair)
        from read_versions_world[OF rv3] have f3: "files w3 = files w2"
          and s3: "steps w3 = steps w2 @ map (\<lambda>pkg. GetCurrentVersion (path pkg)) packages"
          by auto
        have q3: "list_all is_quiet (steps w3)" using s3 q2 by simp
        from pre br rv3 have l: "publish_prerelease ev nb an packages pv w3 = (rb, wb)" by auto
        have e3: "\<forall>q \<in> set (map path packages). filter (pipeline_step q) (steps w3) = []"
          using quiet_facts(3)[OF q3] by simp
        from publish_prerelease_summary[OF l distinct_paths e3 quiet_facts(1,2)[OF q3]] f3
        show ?thesis by (auto simp: deps_kept_def)
      next
        case all
        with br have "publish_all ev nb an w2 = (rb, wb)" by auto
        from publish_all_summary[OF this q2] show ?thesis .
      next
        case none
        with br have "rb = Inr ()" "wb = w2" by auto
        with quiet_facts[OF q2] show ?thesis by (auto simp: deps_kept_same)
      qed
    qed
    from run ce True rv br have "w' = wb" "isl r \<longleftrightarrow> isl rb"
      by (auto simp: main_def split: sum.splits)
    with sum f2 show ?thesis by (simp add: deps_kept_def)
  qed
qed

lemma publish_script_main:
  assumes "publish_script ev nb an w = (status, w')"
  obtains r w1 where "main ev nb an w = (r, w1)" "files w' = files w1" "steps w' = steps w1"
    "isl r \<longrightarrow> status = 1 \<and> (\<exists>e. messages w' = messages w1 @ [PublishingFailed e])"
proof -
  obtain r w1 where m: "main ev nb an w = (r, w1)" by (metis surj_pair)
  with assms have "files w' = files w1" "steps w' = steps w1"
    "isl r \<longrightarrow> status = 1 \<and> (\<exists>e. messages w' = messages w1 @ [PublishingFailed e])"
    by (auto simp: publish_script_def split: sum.splits completion.splits)
  with m that show ?thesis by blast
qed

section \<open>Restoring the workspace ranges\<close>

text \<open>
  Claim C1, amended. Take any run of the publish script, whatever the user chooses and
  whether the builds and publishes succeed or throw, and any package path. After the run
  the manifest at that path is the file it was before the run, or it parses as it did
  before and each of its three dependency sections that is an object holds the entries
  it held, by name and order, where every dependency on one of the three packages has the
  range \<open>workspace:*\<close> (no substituted version is left) and every other dependency has
  the range it had before the run; a section that is no object has the value that
  \<open>JSON.stringify\<close> prints of its old value. A range \<open>workspace:*\<close> is so restored
  to what it was; any other range of a dependency on one of the three packages is not.
\<close>

theorem workspace_ranges_restored:
  assumes "publish_script ev noBuild an (initial fs) = (status, w')"
  shows "files w' p = fs p
     \<or> (\<exists>pkg pkg'. fs p = Json pkg \<and> files w' p = Json pkg'
           \<and> (\<forall>d \<in> set depTypes. \<forall>s. get_property (stringified pkg) d = Inr s \<longrightarrow>
                 (\<exists>s'. get_property pkg' d = Inr s' \<and> section_restored s s')))"
proof -
  from assms(1) obtain r w1 where m: "main ev noBuild an (initial fs) = (r, w1)"
    and f: "files w' = files w1" by (rule publish_script_main)
  from main_summary[OF m] have "deps_kept (initial fs) w1" by simp
  with f have k: "manifest_kept (fs p) (files w' p)" by (simp add: deps_kept_def initial_def)
  show ?thesis
  proof (cases "files w' p = fs p")
    case True
    then show ?thesis by simp
  next
    case False
    from manifest_kept_cases[OF k False] obtain pkg pkg' where
      "fs p = Json pkg" "files w' p = Json pkg'" by blast
    with k False show ?thesis by (auto simp: manifest_kept_Json)
  qed
qed

lemma section_restored_example:
  assumes "section_restored
             (Obj [(''@fecommunity/reactpress-config'', Str ''workspace:^1.0.0''),
                   (''lodash'', Str ''^4.17.21'')]) s'"
  shows "s' = Obj [(''@fecommunity/reactpress-config'', Str ''workspace:*''),
                   (''lodash'', Str ''^4.17.21'')]"
proof -
  from assms obtain deps' where s': "s' = Obj deps'"
    and l: "list_all2 entry_restored
              [(''@fecommunity/reactpress-config'', Str ''workspace:^1.0.0''),
               (''lodash'', Str ''^4.17.21'')] deps'"
    by (cases s') (auto simp: section_restored_def)
  from l obtain a b where "deps' = [a, b]"
    and "entry_restored (''@fecommunity/reactpress-config'', Str ''workspace:^1.0.0'') a"
    and "entry_restored (''lodash'', Str ''^4.17.21'') b"
    by (auto simp: list_all2_Cons1)
  with s' show ?thesis
    by (cases a; cases b) (simp add: entry_restored_def packages_def)
qed

theorem workspace_ranges_restored_witness:
  "fst (publish_script publish_fails False publish_server_patch (initial example_manifests)) = 1
   \<and> (\<exists>pkg'. files (snd (publish_script publish_fails False publish_server_patch
                             (initial example_manifests))) ''server'' = Json pkg'
         \<and> get_property pkg' ''dependencies''
           = Inr (Obj [(''@fecommunity/reactpress-config'', Str ''workspace:*''),
                       (''lodash'', Str ''^4.17.21'')]))"
proof -
  let ?X = "publish_script publish_fails False publish_server_patch (initial example_manifests)"
  let ?pkg = "Obj [(''name'', Str ''@fecommunity/reactpress-server''), (''version'', Str ''1.0.0''),
                   (''dependencies'',
                      Obj [(''@fecommunity/reactpress-config'', Str ''workspace:^1.0.0''),
                           (''lodash'', Str ''^4.17.21'')])]"
  have run: "?X = (fst ?X, snd ?X)" by simp
  have status: "fst ?X = 1" by code_simp
  have changed: "files (snd ?X) ''server'' \<noteq> example_manifests ''server''" by code_simp
  have before: "example_manifests ''server'' = Json ?pkg" by (simp add: example_manifests_def)
  have sect: "get_property (stringified ?pkg) ''dependencies''
      = Inr (Obj [(''@fecommunity/reactpress-config'', Str ''workspace:^1.0.0''),
                  (''lodash'', Str ''^4.17.21'')])"
    by (simp add: AList.delete_eq)
  from workspace_ranges_restored[OF run, of "''server''"] changed before
  obtain pkg' where after: "files (snd ?X) ''server'' = Json pkg'"
    and all: "\<forall>d \<in> set depTypes. \<forall>s. get_property (stringified ?pkg) d = Inr s \<longrightarrow>
                 (\<exists>s'. get_property pkg' d = Inr s' \<and> section_restored s s')"
    by auto
  from all sect obtain s' where "get_property pkg' ''dependencies'' = Inr s'"
    and "section_restored
           (Obj [(''@fecommunity/reactpress-config'', Str ''workspace:^1.0.0''),
                 (''lodash'', Str ''^4.17.21'')]) s'"
    by (auto simp: depTypes_def)
  with section_restored_example after status show ?thesis by blast
qed

text \<open>
  As stated the claim fails: a range \<open>workspace:^1.0.0\<close> is a workspace range, so it is
  replaced before publishing, and \<open>restoreWorkspaceDependencies\<close> writes \<open>workspace:*\<close>
  for every dependency on one of the three packages, whatever it was: the script keeps no
  record of the ranges it replaces. Here the server package is published with a patch
  bump, every command succeeding.
\<close>

theorem workspace_ranges_counterexample:
  "example_manifests ''server''
     = Json (Obj [(''name'', Str ''@fecommunity/reactpress-server''), (''version'', Str ''1.0.0''),
                (''dependencies'',
                   Obj [(''@fecommunity/reactpress-config'', Str ''workspace:^1.0.0''),
                        (''lodash'', Str ''^4.17.21'')])])
   \<and> publish_script registry_empty False publish_server_patch (initial example_manifests)
     = (0, snd (publish_script registry_empty False publish_server_patch
                  (initial example_manifests)))
   \<and> files (snd (publish_script registry_empty False publish_server_patch
                   (initial example_manifests))) ''server''
     = Json (Obj [(''name'', Str ''@fecommunity/reactpress-server''), (''version'', Str ''1.0.1''),
                (''dependencies'',
                   Obj [(''@fecommunity/reactpress-config'', Str ''workspace:*''),
                        (''lodash'', Str ''^4.17.21'')])])"
proof -
  have "fst (publish_script registry_empty False publish_server_patch (initial example_manifests))
        = 0" by code_simp
  then have "publish_script registry_empty False publish_server_patch (initial example_manifests)
     = (0, snd (publish_script registry_empty False publish_server_patch
                  (initial example_manifests)))"
    by (metis prod.collapse)
  moreover have "files (snd (publish_script registry_empty False publish_server_patch
                   (initial example_manifests))) ''server''
     = Json (Obj [(''name'', Str ''@fecommunity/reactpress-server''), (''version'', Str ''1.0.1''),
                (''dependencies'',
                   Obj [(''@fecommunity/reactpress-config'', Str ''workspace:*''),
                        (''lodash'', Str ''^4.17.21'')])])"
    by code_simp
  ultimately show ?thesis by (simp add: example_manifests_def)
qed

section \<open>The order of the steps for a package\<close>

text \<open>
  Claim C8, amended. In every run of the publish script and for every package path whose
  publish command the run starts, the calls that write the manifest of the package or
  start its commands are, in this order and each once: \<open>fixWorkspaceDependencies\<close>,
  \<open>updateVersion\<close>, \<open>buildPackage\<close> (left out when the script is started with
  \<open>--no-build\<close>), \<open>publishPackage\<close>, \<open>restoreWorkspaceDependencies\<close>. The substitution
  comes after a \<open>getCurrentVersion\<close> of the package and, when the version is not entered by
  the user, after a later \<open>getNextAvailableVersion\<close>.
\<close>

theorem publish_steps_order:
  assumes "publish_script ev noBuild an (initial fs) = (status, w')"
    and "PublishPackage p t \<in> set (steps w')"
  shows "filter (pipeline_step p) (steps w')
       = [FixWorkspaceDependencies p, UpdateVersion p]
         @ (if noBuild then [] else [BuildPackage p])
         @ [PublishPackage p t, RestoreWorkspaceDependencies p]
     \<and> (if versionType an = ''custom''
        then subseq [GetCurrentVersion p, FixWorkspaceDependencies p] (steps w')
        else \<exists>n. subseq [GetCurrentVersion p, GetNextAvailableVersion n,
                          FixWorkspaceDependencies p] (steps w'))"
proof -
  from assms(1) obtain r w1 where m: "main ev noBuild an (initial fs) = (r, w1)"
    and s: "steps w' = steps w1" by (rule publish_script_main)
  from main_summary[OF m] s have fine: "steps_fine noBuild (versionType an) (steps w')" by simp
  then have 1: "filter (pipeline_step p) (steps w') = expected_pipeline noBuild p t"
    using assms(2) by (simp add: steps_fine_def ordered_pipelines_def)
  have "FixWorkspaceDependencies p \<in> set (expected_pipeline noBuild p t)"
    by (simp add: expected_pipeline_def)
  with 1 have "FixWorkspaceDependencies p \<in> set (filter (pipeline_step p) (steps w'))" by simp
  then have "FixWorkspaceDependencies p \<in> set (steps w')" by simp
  with fine have "fix_preceded (versionType an) p (steps w')"
    by (simp add: steps_fine_def fixes_preceded_def)
  with 1 show ?thesis by (simp add: expected_pipeline_def fix_preceded_def)
qed

lemma run_example_built:
  "steps (snd (publish_script registry_empty False publish_server_patch (initial example_manifests)))
   = [GetCurrentVersion ''config'', GetCurrentVersion ''server'', GetCurrentVersion ''client'',
      GetCurrentVersion ''server'',
      GetNextAvailableVersion ''@fecommunity/reactpress-server'',
      NpmView ''@fecommunity/reactpress-server'' ''1.0.1'',
      GetCurrentVersion ''config'', GetCurrentVersion ''server'', GetCurrentVersion ''client'',
      FixWorkspaceDependencies ''server'', UpdateVersion ''server'', BuildPackage ''server'',
      PublishPackage ''server'' ''latest'', RestoreWorkspaceDependencies ''server'']"
  by code_simp

theorem publish_steps_order_witness:
  "PublishPackage ''server'' ''latest''
     \<in> set (steps (snd (publish_script registry_empty False publish_server_patch
                          (initial example_manifests))))
   \<and> filter (pipeline_step ''server'')
       (steps (snd (publish_script registry_empty False publish_server_patch
                      (initial example_manifests))))
     = [FixWorkspaceDependencies ''server'', UpdateVersion ''server'', BuildPackage ''server'',
        PublishPackage ''server'' ''latest'', RestoreWorkspaceDependencies ''server'']
   \<and> (\<exists>n. subseq [GetCurrentVersion ''server'', GetNextAvailableVersion n,
                    FixWorkspaceDependencies ''server'']
          (steps (snd (publish_script registry_empty False publish_server_patch
                         (initial example_manifests)))))"
proof -
  let ?X = "publish_script registry_empty False publish_server_patch (initial example_manifests)"
  have run: "?X = (fst ?X, snd ?X)" by simp
  have mem: "PublishPackage ''server'' ''latest'' \<in> set (steps (snd ?X))"
    unfolding run_example_built by simp
  have vt: "versionType publish_server_patch \<noteq> ''custom''"
    by (simp add: publish_server_patch_def)
  from publish_steps_order[OF run mem] vt mem show ?thesis by simp
qed

text \<open>
  As stated the claim fails: started with \<open>--no-build\<close> the script publishes the package
  without invoking its build command.
\<close>

theorem publish_steps_counterexample:
  "steps (snd (publish_script registry_empty True publish_server_patch (initial example_manifests)))
   = [GetCurrentVersion ''config'', GetCurrentVersion ''server'', GetCurrentVersion ''client'',
      GetCurrentVersion ''server'',
      GetNextAvailableVersion ''@fecommunity/reactpress-server'',
      NpmView ''@fecommunity/reactpress-server'' ''1.0.1'',
      GetCurrentVersion ''config'', GetCurrentVersion ''server'', GetCurrentVersion ''client'',
      FixWorkspaceDependencies ''server'', UpdateVersion ''server'',
      PublishPackage ''server'' ''latest'', RestoreWorkspaceDependencies ''server'']
   \<and> BuildPackage ''server''
       \<notin> set (steps (snd (publish_script registry_empty True publish_server_patch
                             (initial example_manifests))))"
proof -
  have "steps (snd (publish_script registry_empty True publish_server_patch
                      (initial example_manifests)))
   = [GetCurrentVersion ''config'', GetCurrentVersion ''server'', GetCurrentVersion ''client'',
      GetCurrentVersion ''server'',
      GetNextAvailableVersion ''@fecommunity/reactpress-server'',
      NpmView ''@fecommunity/reactpress-server'' ''1.0.1'',
      GetCurrentVersion ''config'', GetCurrentVersion ''server'', GetCurrentVersion ''client'',
      FixWorkspaceDependencies ''server'', UpdateVersion ''server'',
      PublishPackage ''server'' ''latest'', RestoreWorkspaceDependencies ''server'']"
    by code_simp
  then show ?thesis by simp
qed

section \<open>Unrecoverable errors\<close>

text \<open>
  Claim C7. When the Swagger file is missing, \<open>generateApiTypes\<close> prints an error and
  exits with status 1 (as it does when the generation throws). In a run of the publish
  script, when a build command or a publish command that the run starts fails, the script
  exits with status 1, and the last thing it prints is the error that \<open>main\<close> threw.
\<close>

theorem unrecoverable_errors_exit:
  "(\<not> input_exists \<longrightarrow> generateApiTypes input_exists thrown = ([SwaggerFileMissing], Some 1))
   \<and> (input_exists \<and> thrown = Some message \<longrightarrow>
        generateApiTypes input_exists thrown = ([GenerationFailed message], Some 1))
   \<and> (publish_script ev noBuild an (initial fs) = (status, w') \<and> list_ex (failed ev) (steps w')
        \<longrightarrow> status = 1 \<and> messages w' \<noteq> [] \<and> (\<exists>e. last (messages w') = PublishingFailed e))"
proof (intro conjI impI)
  assume "\<not> input_exists"
  then show "generateApiTypes input_exists thrown = ([SwaggerFileMissing], Some 1)"
    by (simp add: generateApiTypes_def)
next
  assume "input_exists \<and> thrown = Some message"
  then show "generateApiTypes input_exists thrown = ([GenerationFailed message], Some 1)"
    by (simp add: generateApiTypes_def)
next
  assume a: "publish_script ev noBuild an (initial fs) = (status, w') \<and> list_ex (failed ev) (steps w')"
  then obtain r w1 where m: "main ev noBuild an (initial fs) = (r, w1)"
    and s: "steps w' = steps w1"
    and e: "isl r \<longrightarrow> status = 1 \<and> (\<exists>e. messages w' = messages w1 @ [PublishingFailed e])"
    by (auto elim: publish_script_main)
  from main_summary[OF m] a s have "isl r" by simp
  with e obtain x where "status = 1" "messages w' = messages w1 @ [PublishingFailed x]" by blast
  then show "status = 1" "messages w' \<noteq> []" "\<exists>e. last (messages w') = PublishingFailed e"
    by simp_all
qed

theorem unrecoverable_errors_exit_witness:
  "generateApiTypes False None = ([SwaggerFileMissing], Some 1)
   \<and> generateApiTypes True (Some ''no paths'') = ([GenerationFailed ''no paths''], Some 1)
   \<and> list_ex (failed publish_fails)
       (steps (snd (publish_script publish_fails False publish_server_patch
                      (initial example_manifests))))
   \<and> fst (publish_script publish_fails False publish_server_patch (initial example_manifests)) = 1
   \<and> messages (snd (publish_script publish_fails False publish_server_patch
                       (initial example_manifests)))
     = [FailedToPublish ''@fecommunity/reactpress-server'',
        PublishingFailed (ExecError
          ''pnpm publish --access public --tag latest --registry https://registry.npmjs.org --no-git-checks'')]"
proof -
  let ?X = "publish_script publish_fails False publish_server_patch (initial example_manifests)"
  have f: "list_ex (failed publish_fails) (steps (snd ?X))" by code_simp
  have run: "?X = (fst ?X, snd ?X)" by simp
  have msgs: "messages (snd ?X)
     = [FailedToPublish ''@fecommunity/reactpress-server'',
        PublishingFailed (ExecError
          ''pnpm publish --access public --tag latest --registry https://registry.npmjs.org --no-git-checks'')]"
    by code_simp
  from unrecoverable_errors_exit[where input_exists = False and thrown = None
      and ev = publish_fails and noBuild = False and an = publish_server_patch
      and fs = example_manifests and status = "fst ?X" and w' = "snd ?X"] run f
  have 1: "generateApiTypes False None = ([SwaggerFileMissing], Some 1)" "fst ?X = 1"
    by simp_all
  from unrecoverable_errors_exit[where input_exists = True and thrown = "Some ''no paths''"
      and message = "''no paths''"]
  have 2: "generateApiTypes True (Some ''no paths'') = ([GenerationFailed ''no paths''], Some 1)"
    by simp
  from 1 2 f msgs show ?thesis by simp
qed
section \<open>Replacing all matches\<close>


lemma replace_all_hit:
  "m (c # cs) = Some (rep, n) \<Longrightarrow> replace_all m (c # cs) = rep @ replace_all m (drop (n - 1) cs)"
  by simp

lemma replace_all_miss: "m (c # cs) = None \<Longrightarrow> replace_all m (c # cs) = c # replace_all m cs"
  by simp

section \<open>Renaming the methods\<close>

lemma find_down_None: "find P (rev [0..<n]) = None \<longleftrightarrow> (\<forall>i<n. \<not> P i)"
  by (auto simp: find_None_iff)















lemma drop_length_plus: "drop (length a + k) (a @ b) = drop k b"
  by simp











end
